theory Spec2Isabelle
  imports Complex_Main "HOL-Library.Word" "HOL-Library.Log_Nat"
begin

unbundle bit_operations_syntax

section \<open>Buffers and 16-bit PCM access\<close>

text \<open>
  A Node \<open>Buffer\<close> is a list of bytes. Where the source only ever holds integers (byte
  offsets, counters, millisecond clock readings) the model has integers. The loudness
  that \<open>VoiceDetection\<close> computes only enters the comparisons with its two thresholds
  and is kept as an exact real. The volumes of
  \<open>AudioMonitor\<close>, the average of its volume window, and the arithmetic of the resampler
  are computed in double precision, with the rounding of the section on JavaScript
  numbers.
\<close>

type_synonym byte = "8 word"
type_synonym buffer = "byte list"
type_synonym participant = string

text \<open>
  \<open>RangeError\<close> is what \<open>Buffer.readInt16LE\<close>, \<open>Buffer.writeInt16LE\<close> and \<open>Buffer.alloc\<close>
  throw. JavaScript does not throw on a division by zero (it yields \<open>NaN\<close> or an infinity);
  \<open>ZeroDivisor\<close> marks that outcome so that its absence can be stated.
\<close>

datatype error = RangeError | ZeroDivisor

text \<open>
  \<open>buf.readInt16LE(offset)\<close>: throws unless \<open>0 \<le> offset \<le> length - 2\<close>; otherwise
  \<open>val = first + last * 2^8\<close> and the result is \<open>val | (val & 2^15) * 0x1fffe\<close>, that is
  \<open>val\<close> read as two's complement.
\<close>

definition readInt16LE :: "buffer \<Rightarrow> nat \<Rightarrow> error + int" where
  "readInt16LE buf offset =
     (if offset + 2 \<le> length buf
      then (let val = uint (buf ! offset) + uint (buf ! (offset + 1)) * 256
            in Inr (if 32768 \<le> val then val - 65536 else val))
      else Inl RangeError)"

text \<open>
  \<open>buf.writeInt16LE(value, offset)\<close> on a buffer given as a list: the value must lie in
  the signed 16-bit range and both bytes must be inside the buffer.
\<close>

definition writeInt16LE :: "buffer \<Rightarrow> int \<Rightarrow> nat \<Rightarrow> error + buffer" where
  "writeInt16LE buf v offset =
     (if v < - 32768 \<or> 32767 < v \<or> length buf < offset + 2 then Inl RangeError
      else Inr (buf[offset := word_of_int v, offset + 1 := word_of_int (v div 256)]))"

section \<open>VoiceDetection: loudness of a frame\<close>

text \<open>
  The \<open>for (let i = 0; i < buffer.length; i += 2)\<close> loop of \<open>calculateRMS\<close>, with the
  running \<open>sumSquares\<close>. A read past the end throws out of the loop.
\<close>

function calculateRMS_loop :: "buffer \<Rightarrow> nat \<Rightarrow> real \<Rightarrow> error + real" where
  "calculateRMS_loop buf i sumSquares =
     (if i < length buf
      then (case readInt16LE buf i of
              Inl e \<Rightarrow> Inl e
            | Inr sample \<Rightarrow>
                (let normalizedSample = real_of_int sample / 32768
                 in calculateRMS_loop buf (i + 2)
                      (sumSquares + normalizedSample * normalizedSample)))
      else Inr sumSquares)"
  by pat_completeness auto
termination
  by (relation "measure (\<lambda>(buf, i, s). length buf - i)") auto

declare calculateRMS_loop.simps [simp del]

text \<open>The quotient \<open>sumSquares / sampleCount\<close>, flagged when the divisor is zero.\<close>

definition divide_by_count :: "real \<Rightarrow> nat \<Rightarrow> error + real" where
  "divide_by_count s n = (if n = 0 then Inl ZeroDivisor else Inr (s / real n))"

definition calculateRMS :: "buffer \<Rightarrow> error + real" where
  "calculateRMS buf =
     (if length buf < 2 then Inr 0
      else (let sampleCount = length buf div 2
            in case calculateRMS_loop buf 0 0 of
                 Inl e \<Rightarrow> Inl e
               | Inr sumSquares \<Rightarrow>
                   (case divide_by_count sumSquares sampleCount of
                      Inl e \<Rightarrow> Inl e
                    | Inr q \<Rightarrow> Inr (sqrt q))))"

subsection \<open>The loop, read off the list\<close>

text \<open>
  The same sum by recursion on the bytes that are left: two bytes make a sample, a single
  trailing byte makes the read fail.
\<close>

definition sample16 :: "byte \<Rightarrow> byte \<Rightarrow> int" where
  "sample16 lo hi =
     (let val = uint lo + uint hi * 256 in if 32768 \<le> val then val - 65536 else val)"

definition square_normalized :: "int \<Rightarrow> real" where
  "square_normalized sample = (real_of_int sample / 32768) * (real_of_int sample / 32768)"

fun sum_squares :: "buffer \<Rightarrow> real \<Rightarrow> error + real" where
  "sum_squares [] acc = Inr acc"
| "sum_squares [b] acc = Inl RangeError"
| "sum_squares (lo # hi # rest) acc =
     sum_squares rest (acc + square_normalized (sample16 lo hi))"

section \<open>VoiceDetection: per-participant turn state\<close>

record VoiceActivityState =
  isSpeaking :: bool
  speechStartTime :: int
  speechEndTime :: int
  buffers :: "buffer list"
  totalLength :: int
  lastActivity :: int
  speechFrameCount :: nat
  silenceFrameCount :: nat

record VoiceDetectionConfig =
  silenceThreshold :: real
  speechThreshold :: real
  minSpeechDuration :: int
  maxSpeechDuration :: int
  silenceFramesRequired :: int
  speechFramesRequired :: int
  debounceThreshold :: int
  frameSize :: int
  sampleRate :: int

text \<open>The defaults the constructor merges the caller's partial configuration into.\<close>

definition defaultConfig :: VoiceDetectionConfig where
  "defaultConfig =
     \<lparr> silenceThreshold = 1 / 100, speechThreshold = 5 / 100,
       minSpeechDuration = 500, maxSpeechDuration = 10000,
       silenceFramesRequired = 20, speechFramesRequired = 3,
       debounceThreshold = 1500, frameSize = 160, sampleRate = 16000 \<rparr>"

text \<open>
  Everything the detector and the monitor emit, in one type; a run returns the events in
  the order of the \<open>emit\<close> calls.
\<close>

datatype event =
    SpeechStarted participant
  | SpeechEnded participant buffer
  | SpeechTurn participant buffer int
  | SpeakingStarted participant
  | SpeakingStopped participant buffer
  | VolumeDetected participant real
  | InterruptionDetected participant

text \<open>
  A handle returned by \<open>setTimeout\<close>: the earliest clock reading at which the callback
  may run, and whether \<open>clearTimeout\<close> has been called on it. A handle stays truthy after
  it has been cleared.
\<close>

datatype timer = Timer (due: int) (cleared: bool)

record VoiceDetection =
  config :: VoiceDetectionConfig
  participantStates :: "participant \<rightharpoonup> VoiceActivityState"
  debounceTimers :: "participant \<rightharpoonup> timer"
  processingFlags :: "participant \<rightharpoonup> bool"

definition newVoiceDetection :: "VoiceDetectionConfig \<Rightarrow> VoiceDetection" where
  "newVoiceDetection cfg =
     \<lparr> config = cfg, participantStates = Map.empty, debounceTimers = Map.empty,
       processingFlags = Map.empty \<rparr>"

text \<open>
  Each operation takes the reading of \<open>Date.now()\<close> as \<open>now\<close>: one synchronous call reads
  the clock once. The \<open>state\<close> object the source hands from method to method is the entry
  of \<open>participantStates\<close> under the participant: the methods below look it up there, so
  that an update through either path is seen by the other, as with the shared object.
\<close>

definition initialState :: "int \<Rightarrow> VoiceActivityState" where
  "initialState now =
     \<lparr> isSpeaking = False, speechStartTime = 0, speechEndTime = 0, buffers = [],
       totalLength = 0, lastActivity = now, speechFrameCount = 0, silenceFrameCount = 0 \<rparr>"

definition initializeParticipantState :: "participant \<Rightarrow> int \<Rightarrow> VoiceDetection \<Rightarrow> VoiceDetection" where
  "initializeParticipantState participantId now vd =
     vd\<lparr> participantStates := (participantStates vd)(participantId \<mapsto> initialState now),
         processingFlags := (processingFlags vd)(participantId \<mapsto> False) \<rparr>"

definition resetState :: "VoiceActivityState \<Rightarrow> VoiceActivityState" where
  "resetState state =
     state\<lparr> isSpeaking := False, speechStartTime := 0, speechEndTime := 0, buffers := [],
            totalLength := 0, speechFrameCount := 0, silenceFrameCount := 0 \<rparr>"

definition resetParticipantState :: "participant \<Rightarrow> VoiceDetection \<Rightarrow> VoiceDetection" where
  "resetParticipantState participantId vd =
     (case participantStates vd participantId of
        None \<Rightarrow> vd
      | Some state \<Rightarrow>
          vd\<lparr> participantStates := (participantStates vd)(participantId \<mapsto> resetState state) \<rparr>)"

subsection \<open>The memory ceiling\<close>

definition maxBufferSize :: int where
  "maxBufferSize = 10 * 1024 * 1024"

text \<open>
  The \<open>while\<close> loop of \<open>manageBufferSize\<close> on the two fields it touches: \<open>shift()\<close> takes
  the oldest buffer off the front.
\<close>

function manageBufferSize_loop :: "buffer list \<Rightarrow> int \<Rightarrow> buffer list \<times> int" where
  "manageBufferSize_loop bufs len =
     (if len > maxBufferSize \<and> length bufs > 1
      then manageBufferSize_loop (tl bufs) (len - int (length (hd bufs)))
      else (bufs, len))"
  by pat_completeness auto
termination
  by (relation "measure (\<lambda>(bufs, len). length bufs)") auto

declare manageBufferSize_loop.simps [simp del]

definition manageBufferSize :: "VoiceActivityState \<Rightarrow> VoiceActivityState" where
  "manageBufferSize state =
     (case manageBufferSize_loop (buffers state) (totalLength state) of
        (bufs, len) \<Rightarrow> state\<lparr> buffers := bufs, totalLength := len \<rparr>)"

subsection \<open>Validation of a finished turn\<close>

text \<open>
  \<open>buffer.toString('ascii', start, end)\<close>: decoding as ASCII clears the top bit of each
  byte. The tags are the byte codes of \<open>RIFF\<close> and \<open>WAVE\<close>.
\<close>

definition asciiSlice :: "buffer \<Rightarrow> nat \<Rightarrow> nat \<Rightarrow> byte list" where
  "asciiSlice buf start stop = map (\<lambda>b. b AND 127) (take (stop - start) (drop start buf))"

definition isValidAudioBuffer :: "buffer \<Rightarrow> bool" where
  "isValidAudioBuffer buf =
     (if length buf < 1024 then False
      else if length buf > 12 \<and> asciiSlice buf 0 4 = [82, 73, 70, 70]
      then asciiSlice buf 8 12 = [87, 65, 86, 69]
      else length buf \<ge> 2048)"

subsection \<open>Turn lifecycle\<close>

definition handleSpeechStart :: "participant \<Rightarrow> int \<Rightarrow> VoiceDetection \<Rightarrow> VoiceDetection \<times> event list" where
  "handleSpeechStart participantId now vd =
     (if processingFlags vd participantId = Some True then (vd, [])
      else (case participantStates vd participantId of
              None \<Rightarrow> (vd, [])
            | Some state \<Rightarrow>
                (vd\<lparr> participantStates := (participantStates vd)(participantId \<mapsto>
                        state\<lparr> isSpeaking := True, speechStartTime := now, buffers := [],
                               totalLength := 0, speechFrameCount := 0,
                               silenceFrameCount := 0 \<rparr>),
                      debounceTimers := (debounceTimers vd)(participantId := None) \<rparr>,
                 [SpeechStarted participantId])))"

definition processSpeechTurn :: "participant \<Rightarrow> int \<Rightarrow> VoiceDetection \<Rightarrow> VoiceDetection \<times> event list" where
  "processSpeechTurn participantId now vd =
     (case participantStates vd participantId of
        None \<Rightarrow> (vd, [])
      | Some state \<Rightarrow>
          (let speechDuration = now - speechStartTime state
           in if speechDuration < minSpeechDuration (config vd)
              then (resetParticipantState participantId vd, [])
              else if length (buffers state) = 0 \<or> totalLength state = 0
              then (resetParticipantState participantId vd, [])
              else (let completeAudioBuffer = concat (buffers state)
                    in if \<not> isValidAudioBuffer completeAudioBuffer
                       then (resetParticipantState participantId vd, [])
                       else (resetParticipantState participantId
                               (vd\<lparr> participantStates := (participantStates vd)(participantId \<mapsto>
                                       state\<lparr> speechEndTime := now \<rparr>) \<rparr>),
                             [SpeechEnded participantId completeAudioBuffer,
                              SpeechTurn participantId completeAudioBuffer speechDuration]))))"

text \<open>
  \<open>setTimeout(f, delay)\<close> runs \<open>f\<close> no earlier than \<open>delay\<close> milliseconds later; Node
  replaces a delay below 1 or above \<open>2^31 - 1\<close> by 1.
\<close>

definition timeoutDelay :: "int \<Rightarrow> int" where
  "timeoutDelay delay = (if delay < 1 \<or> 2147483647 < delay then 1 else delay)"

definition clearTimer :: "timer \<Rightarrow> timer" where
  "clearTimer t = Timer (due t) True"

definition setupDebouncedProcessing :: "participant \<Rightarrow> int \<Rightarrow> VoiceDetection \<Rightarrow> VoiceDetection" where
  "setupDebouncedProcessing participantId now vd =
     (let vd1 = (case debounceTimers vd participantId of
                   None \<Rightarrow> vd
                 | Some existingTimer \<Rightarrow>
                     vd\<lparr> debounceTimers :=
                           (debounceTimers vd)(participantId \<mapsto> clearTimer existingTimer) \<rparr>)
      in if processingFlags vd1 participantId = Some True
         then resetParticipantState participantId vd1
         else vd1\<lparr> debounceTimers := (debounceTimers vd1)(participantId \<mapsto>
                      Timer (now + timeoutDelay (debounceThreshold (config vd1))) False) \<rparr>)"

definition handlePotentialSpeechEnd :: "participant \<Rightarrow> int \<Rightarrow> VoiceDetection \<Rightarrow> VoiceDetection" where
  "handlePotentialSpeechEnd participantId now vd =
     (case participantStates vd participantId of
        None \<Rightarrow> vd
      | Some state \<Rightarrow>
          setupDebouncedProcessing participantId now
            (vd\<lparr> participantStates := (participantStates vd)(participantId \<mapsto>
                    state\<lparr> isSpeaking := False \<rparr>) \<rparr>))"

text \<open>
  The callback handed to \<open>setTimeout\<close>. The \<open>state\<close> it has captured is still the
  participant's entry when it runs: an entry is only replaced after \<open>cleanup\<close>, which
  cancels the timer.
\<close>

definition debounceCallback :: "participant \<Rightarrow> int \<Rightarrow> VoiceDetection \<Rightarrow> VoiceDetection \<times> event list" where
  "debounceCallback participantId now vd =
     (case processSpeechTurn participantId now
             (vd\<lparr> processingFlags := (processingFlags vd)(participantId \<mapsto> True) \<rparr>) of
        (vd2, events) \<Rightarrow>
          (vd2\<lparr> processingFlags := (processingFlags vd2)(participantId \<mapsto> False),
                debounceTimers := (debounceTimers vd2)(participantId := None) \<rparr>,
           events))"

text \<open>
  The runtime fires a timer only while it is pending (set and not cleared) and once its
  delay has elapsed; at any other moment nothing runs.
\<close>

definition fireTimer :: "participant \<Rightarrow> int \<Rightarrow> VoiceDetection \<Rightarrow> VoiceDetection \<times> event list" where
  "fireTimer participantId now vd =
     (case debounceTimers vd participantId of
        None \<Rightarrow> (vd, [])
      | Some t \<Rightarrow>
          (if \<not> cleared t \<and> due t \<le> now then debounceCallback participantId now vd
           else (vd, [])))"

text \<open>
  \<open>processAudioFrame\<close>: the first component of the result is the exception that left the
  call, if any; the detector is returned as the call left it.
\<close>

definition countFrame :: "VoiceDetectionConfig \<Rightarrow> real \<Rightarrow> VoiceActivityState \<Rightarrow> VoiceActivityState" where
  "countFrame cfg rms state =
     (let isSpeechFrame = rms > speechThreshold cfg;
          isSilenceFrame = rms < silenceThreshold cfg
      in if isSpeechFrame
         then state\<lparr> speechFrameCount := speechFrameCount state + 1, silenceFrameCount := 0 \<rparr>
         else if isSilenceFrame
         then state\<lparr> silenceFrameCount := silenceFrameCount state + 1, speechFrameCount := 0 \<rparr>
         else state)"

definition pushFrame :: "buffer \<Rightarrow> int \<Rightarrow> VoiceActivityState \<Rightarrow> VoiceActivityState" where
  "pushFrame audioBuffer now state =
     manageBufferSize
       (state\<lparr> buffers := buffers state @ [audioBuffer],
               totalLength := totalLength state + int (length audioBuffer),
               lastActivity := now \<rparr>)"

definition processAudioFrame ::
  "participant \<Rightarrow> buffer \<Rightarrow> int \<Rightarrow> VoiceDetection \<Rightarrow> error option \<times> VoiceDetection \<times> event list" where
  "processAudioFrame participantId audioBuffer now vd0 =
     (let vd = (if participantStates vd0 participantId = None
                then initializeParticipantState participantId now vd0 else vd0)
      in case participantStates vd participantId of
           None \<Rightarrow> (None, vd, [])
         | Some state0 \<Rightarrow>
             (case calculateRMS audioBuffer of
                Inl e \<Rightarrow> (Some e, vd, [])
              | Inr rms \<Rightarrow>
                  (let state = countFrame (config vd) rms (pushFrame audioBuffer now state0);
                       vd1 = vd\<lparr> participantStates := (participantStates vd)(participantId \<mapsto> state) \<rparr>
                   in if \<not> isSpeaking state
                         \<and> int (speechFrameCount state) \<ge> speechFramesRequired (config vd)
                      then (case handleSpeechStart participantId now vd1 of
                              (vd2, events) \<Rightarrow> (None, vd2, events))
                      else if isSpeaking state
                         \<and> int (silenceFrameCount state) \<ge> silenceFramesRequired (config vd)
                      then (None, handlePotentialSpeechEnd participantId now vd1, [])
                      else if isSpeaking state
                      then (let speechDuration = now - speechStartTime state
                            in if speechDuration > maxSpeechDuration (config vd)
                               then (case processSpeechTurn participantId now vd1 of
                                       (vd2, events) \<Rightarrow> (None, vd2, events))
                               else (None, vd1, []))
                      else (None, vd1, []))))"

text \<open>
  \<open>cleanup(participantId?)\<close>: the argument is tested for truthiness, so the empty string
  takes the branch of the missing argument.
\<close>

definition cleanup :: "participant option \<Rightarrow> VoiceDetection \<Rightarrow> VoiceDetection" where
  "cleanup participantId vd =
     (case participantId of
        Some (c # cs) \<Rightarrow>
          vd\<lparr> debounceTimers := (debounceTimers vd)((c # cs) := None),
              participantStates := (participantStates vd)((c # cs) := None),
              processingFlags := (processingFlags vd)((c # cs) := None) \<rparr>
      | _ \<Rightarrow>
          vd\<lparr> debounceTimers := Map.empty, participantStates := Map.empty,
              processingFlags := Map.empty \<rparr>)"

section \<open>JavaScript numbers\<close>

text \<open>
  A JavaScript number is an IEEE 754 double: NaN, an infinity, or one of the finite
  doubles, which are the reals \<open>m * 2^e\<close> with \<open>m\<close> an integer of magnitude below \<open>2^53\<close>
  and \<open>- 1074 \<le> e \<le> 971\<close>. An arithmetic operation returns the double nearest to the exact
  result, and of two equally near ones the one with the even \<open>m\<close>.

  \<open>binade x\<close> is the exponent \<open>e\<close> with \<open>2^e \<le> |x| < 2^(e + 1)\<close>, computed from the
  number of bits of the integer part of \<open>|x|\<close>, or of \<open>1 / |x|\<close> when \<open>|x| < 1\<close>.
  \<open>quantum x\<close> is the distance between neighbouring doubles at \<open>x\<close>: 53 significant bits,
  and \<open>2^(- 1074)\<close> throughout the subnormal range.
\<close>

definition binade :: "real \<Rightarrow> int" where
  "binade x =
     (if 1 \<le> \<bar>x\<bar> then bitlen \<lfloor>\<bar>x\<bar>\<rfloor> - 1 else - bitlen (\<lceil>1 / \<bar>x\<bar>\<rceil> - 1))"

definition quantum :: "real \<Rightarrow> real" where
  "quantum x = 2 powi (max (binade x) (- 1022) - 52)"

text \<open>The nearest integer, a half going to the even neighbour.\<close>

definition roundHalfEven :: "real \<Rightarrow> int" where
  "roundHalfEven x =
     (let below = \<lfloor>x\<rfloor>; rest = x - of_int below
      in if rest < 1 / 2 then below
         else if 1 / 2 < rest then below + 1
         else if even below then below else below + 1)"

text \<open>
  The nearest multiple of the quantum. This is the nearest double as long as the result
  is below \<open>2^1024\<close> in magnitude; beyond the largest double an operation returns an
  infinity.
\<close>

definition toDouble :: "real \<Rightarrow> real" where
  "toDouble x = (if x = 0 then 0 else of_int (roundHalfEven (x / quantum x)) * quantum x)"

datatype number = Finite real | PositiveInfinity | NegativeInfinity | NaN

definition toNumber :: "real \<Rightarrow> number" where
  "toNumber x =
     (let nearest = toDouble x
      in if 2 ^ 1024 \<le> nearest then PositiveInfinity
         else if nearest \<le> - (2 ^ 1024) then NegativeInfinity
         else Finite nearest)"

text \<open>
  The operators \<open>+\<close>, \<open>/\<close> and \<open>>\<close> on numbers. The sign of a zero is not modelled: a
  zero divisor is taken as \<open>+0\<close>. (The divisors below that can be zero are the length of
  an empty window, which is \<open>+0\<close>, and the ratio of two rates, where a quotient that is
  infinite of either sign, or NaN, is refused as a buffer size in the same way.)
\<close>

fun number_add :: "number \<Rightarrow> number \<Rightarrow> number" where
  "number_add (Finite x) (Finite y) = toNumber (x + y)"
| "number_add NaN y = NaN"
| "number_add x NaN = NaN"
| "number_add PositiveInfinity NegativeInfinity = NaN"
| "number_add NegativeInfinity PositiveInfinity = NaN"
| "number_add PositiveInfinity y = PositiveInfinity"
| "number_add x PositiveInfinity = PositiveInfinity"
| "number_add NegativeInfinity y = NegativeInfinity"
| "number_add x NegativeInfinity = NegativeInfinity"

fun number_divide :: "number \<Rightarrow> number \<Rightarrow> number" where
  "number_divide (Finite x) (Finite y) =
     (if y = 0
      then (if x = 0 then NaN else if 0 < x then PositiveInfinity else NegativeInfinity)
      else toNumber (x / y))"
| "number_divide NaN y = NaN"
| "number_divide x NaN = NaN"
| "number_divide (Finite x) y = Finite 0"
| "number_divide PositiveInfinity (Finite y) =
     (if 0 \<le> y then PositiveInfinity else NegativeInfinity)"
| "number_divide NegativeInfinity (Finite y) =
     (if 0 \<le> y then NegativeInfinity else PositiveInfinity)"
| "number_divide x y = NaN"

fun number_greater :: "number \<Rightarrow> number \<Rightarrow> bool" where
  "number_greater (Finite x) (Finite y) = (y < x)"
| "number_greater NaN y = False"
| "number_greater x NaN = False"
| "number_greater PositiveInfinity PositiveInfinity = False"
| "number_greater PositiveInfinity y = True"
| "number_greater x NegativeInfinity = (x \<noteq> NegativeInfinity)"
| "number_greater x y = False"

section \<open>AudioMonitor\<close>

text \<open>
  The monitor's configuration has every field of the detector's and four more; its
  constructor hands the common fields to the \<open>VoiceDetection\<close> it creates.
\<close>

record AudioMonitorConfig = VoiceDetectionConfig +
  channels :: int
  maxBufferDuration :: int
  volumeWindowSize :: int
  speakingThreshold :: real

text \<open>
  The defaults of the constructor. \<open>speakingThreshold\<close> is compared with an average
  computed in double precision: its default is the double that the literal \<open>0.1\<close> denotes.
\<close>

definition defaultMonitorConfig :: AudioMonitorConfig where
  "defaultMonitorConfig =
     \<lparr> silenceThreshold = 1 / 100, speechThreshold = 5 / 100,
       minSpeechDuration = 100, maxSpeechDuration = 30000,
       silenceFramesRequired = 3, speechFramesRequired = 3,
       debounceThreshold = 100, frameSize = 160, sampleRate = 16000,
       channels = 1, maxBufferDuration = 30000, volumeWindowSize = 10,
       speakingThreshold = toDouble (1 / 10) \<rparr>"

text \<open>
  The monitor's own per-participant record (\<open>isSpeaking\<close>, \<open>startTime\<close>,
  \<open>lastActivity\<close> in the source; the names of the detector's record are taken).
\<close>

record MonitorState =
  monitorSpeaking :: bool
  startTime :: int
  monitorLastActivity :: int

record AudioMonitor =
  monitorConfig :: AudioMonitorConfig
  voiceDetection :: VoiceDetection
  volumeBuffers :: "participant \<rightharpoonup> real list"
  isMonitoring :: bool
  participantBuffers :: "participant \<rightharpoonup> buffer list"
  monitorStates :: "participant \<rightharpoonup> MonitorState"

definition newAudioMonitor :: "AudioMonitorConfig \<Rightarrow> AudioMonitor" where
  "newAudioMonitor cfg =
     \<lparr> monitorConfig = cfg,
       voiceDetection = newVoiceDetection (VoiceDetectionConfig.truncate cfg),
       volumeBuffers = Map.empty, isMonitoring = False, participantBuffers = Map.empty,
       monitorStates = Map.empty \<rparr>"

subsection \<open>Volume of a frame\<close>

text \<open>
  The loop and the quotient of \<open>calculateVolume\<close>, each operation rounded. A normalized
  sample is at most 1 in magnitude and the sum at most the number of samples, so no
  operation overflows; \<open>Math.sqrt\<close> returns the double nearest to the exact root.
\<close>

function calculateVolume_loop :: "buffer \<Rightarrow> nat \<Rightarrow> real \<Rightarrow> error + real" where
  "calculateVolume_loop buf i sumSquares =
     (if i < length buf
      then (case readInt16LE buf i of
              Inl e \<Rightarrow> Inl e
            | Inr sample \<Rightarrow>
                (let normalizedSample = toDouble (real_of_int sample / 32768)
                 in calculateVolume_loop buf (i + 2)
                      (toDouble (sumSquares + toDouble (normalizedSample * normalizedSample)))))
      else Inr sumSquares)"
  by pat_completeness auto
termination
  by (relation "measure (\<lambda>(buf, i, s). length buf - i)") auto

declare calculateVolume_loop.simps [simp del]

definition calculateVolume :: "buffer \<Rightarrow> error + real" where
  "calculateVolume buf =
     (if length buf < 2 then Inr 0
      else (let sampleCount = length buf div 2
            in case calculateVolume_loop buf 0 0 of
                 Inl e \<Rightarrow> Inl e
               | Inr sumSquares \<Rightarrow>
                   (case divide_by_count sumSquares sampleCount of
                      Inl e \<Rightarrow> Inl e
                    | Inr q \<Rightarrow> Inr (toDouble (sqrt (toDouble q))))))"

text \<open>The same sum by recursion on the bytes that are left.\<close>

definition square_normalized_rounded :: "int \<Rightarrow> real" where
  "square_normalized_rounded sample =
     toDouble (toDouble (real_of_int sample / 32768) * toDouble (real_of_int sample / 32768))"

fun sum_squares_rounded :: "buffer \<Rightarrow> real \<Rightarrow> error + real" where
  "sum_squares_rounded [] acc = Inr acc"
| "sum_squares_rounded [b] acc = Inl RangeError"
| "sum_squares_rounded (lo # hi # rest) acc =
     sum_squares_rounded rest (toDouble (acc + square_normalized_rounded (sample16 lo hi)))"

subsection \<open>Interruption window\<close>

definition updateVolumeBuffer :: "participant \<Rightarrow> real \<Rightarrow> AudioMonitor \<Rightarrow> AudioMonitor" where
  "updateVolumeBuffer participantId volume am =
     (let volumeBuffer = (case volumeBuffers am participantId of None \<Rightarrow> [] | Some vb \<Rightarrow> vb);
          pushed = volumeBuffer @ [volume];
          kept = (if int (length pushed) > volumeWindowSize (monitorConfig am)
                  then tl pushed else pushed)
      in am\<lparr> volumeBuffers := (volumeBuffers am)(participantId \<mapsto> kept) \<rparr>)"

text \<open>
  \<open>reduce\<close> adds the volumes from the left, starting from 0, and the sum is divided by
  the length; each operation is rounded. The average of an empty window is \<open>0 / 0\<close>, that
  is \<open>NaN\<close>, which is greater than nothing.
\<close>

definition checkForInterruption :: "participant \<Rightarrow> real \<Rightarrow> AudioMonitor \<Rightarrow> AudioMonitor \<times> event list" where
  "checkForInterruption participantId volume am =
     (case volumeBuffers am participantId of
        None \<Rightarrow> (am, [])
      | Some volumeBuffer \<Rightarrow>
          (if int (length volumeBuffer) < volumeWindowSize (monitorConfig am) then (am, [])
           else (let avgVolume =
                       number_divide
                         (foldl (\<lambda>sum v. number_add sum (Finite v)) (Finite 0) volumeBuffer)
                         (Finite (real (length volumeBuffer)))
                 in if number_greater avgVolume (Finite (speakingThreshold (monitorConfig am)))
                    then (am\<lparr> volumeBuffers := (volumeBuffers am)(participantId \<mapsto> []) \<rparr>,
                          [InterruptionDetected participantId])
                    else (am, []))))"

subsection \<open>Listeners on the detector's events\<close>

definition handleSpeechStarted :: "participant \<Rightarrow> int \<Rightarrow> AudioMonitor \<Rightarrow> AudioMonitor \<times> event list" where
  "handleSpeechStarted participantId now am =
     (case monitorStates am participantId of
        None \<Rightarrow> (am, [])
      | Some state \<Rightarrow>
          (if \<not> monitorSpeaking state
           then (am\<lparr> monitorStates := (monitorStates am)(participantId \<mapsto>
                        state\<lparr> monitorSpeaking := True, startTime := now \<rparr>),
                     participantBuffers := (participantBuffers am)(participantId \<mapsto> []) \<rparr>,
                 [SpeakingStarted participantId])
           else (am, [])))"

definition handleSpeechEnded :: "participant \<Rightarrow> buffer \<Rightarrow> AudioMonitor \<Rightarrow> AudioMonitor \<times> event list" where
  "handleSpeechEnded participantId audioBuffer am =
     (case monitorStates am participantId of
        None \<Rightarrow> (am, [])
      | Some state \<Rightarrow>
          (if monitorSpeaking state
           then (am\<lparr> monitorStates := (monitorStates am)(participantId \<mapsto>
                        state\<lparr> monitorSpeaking := False \<rparr>) \<rparr>,
                 [SpeakingStopped participantId audioBuffer])
           else (am, [])))"

text \<open>
  \<open>setupVoiceDetectionEvents\<close>: what the monitor does when the detector emits an event.
  The listeners run inside the \<open>emit\<close> call, so the monitor's events follow the
  detector's event that caused them.
\<close>

fun onDetectorEvent :: "event \<Rightarrow> int \<Rightarrow> AudioMonitor \<Rightarrow> AudioMonitor \<times> event list" where
  "onDetectorEvent (SpeechStarted participantId) now am = handleSpeechStarted participantId now am"
| "onDetectorEvent (SpeechEnded participantId audioBuffer) now am =
     handleSpeechEnded participantId audioBuffer am"
| "onDetectorEvent (SpeechTurn participantId audioBuffer duration) now am =
     (am, [SpeakingStopped participantId audioBuffer])"
| "onDetectorEvent e now am = (am, [])"

fun dispatch :: "event list \<Rightarrow> int \<Rightarrow> AudioMonitor \<Rightarrow> AudioMonitor \<times> event list" where
  "dispatch [] now am = (am, [])"
| "dispatch (e # es) now am =
     (case onDetectorEvent e now am of
        (am1, out1) \<Rightarrow>
          (case dispatch es now am1 of
             (am2, out2) \<Rightarrow> (am2, e # out1 @ out2)))"

subsection \<open>The monitor's public operations\<close>

definition startMonitoring :: "participant \<Rightarrow> int \<Rightarrow> AudioMonitor \<Rightarrow> AudioMonitor" where
  "startMonitoring participantId now am =
     (let am1 = (if monitorStates am participantId = None
                 then am\<lparr> monitorStates := (monitorStates am)(participantId \<mapsto>
                             \<lparr> monitorSpeaking = False, startTime = 0,
                               monitorLastActivity = now \<rparr>),
                          volumeBuffers := (volumeBuffers am)(participantId \<mapsto> []),
                          participantBuffers := (participantBuffers am)(participantId \<mapsto> []) \<rparr>
                 else am)
      in am1\<lparr> isMonitoring := True \<rparr>)"

definition stopMonitoring :: "participant \<Rightarrow> AudioMonitor \<Rightarrow> AudioMonitor" where
  "stopMonitoring participantId am =
     (let am1 = am\<lparr> monitorStates := (monitorStates am)(participantId := None),
                    volumeBuffers := (volumeBuffers am)(participantId := None),
                    participantBuffers := (participantBuffers am)(participantId := None),
                    voiceDetection := cleanup (Some participantId) (voiceDetection am) \<rparr>
      in if dom (monitorStates am1) = {} then am1\<lparr> isMonitoring := False \<rparr> else am1)"

definition monitorProcessAudioFrame ::
  "participant \<Rightarrow> buffer \<Rightarrow> int \<Rightarrow> AudioMonitor \<Rightarrow> error option \<times> AudioMonitor \<times> event list" where
  "monitorProcessAudioFrame participantId audioBuffer now am =
     (if \<not> isMonitoring am then (None, am, [])
      else (case monitorStates am participantId of
              None \<Rightarrow> (None, am, [])
            | Some state \<Rightarrow>
                (let am1 = am\<lparr> monitorStates := (monitorStates am)(participantId \<mapsto>
                                  state\<lparr> monitorLastActivity := now \<rparr>) \<rparr>
                 in case calculateVolume audioBuffer of
                      Inl e \<Rightarrow> (Some e, am1, [])
                    | Inr volume \<Rightarrow>
                        (case checkForInterruption participantId volume
                                (updateVolumeBuffer participantId volume am1) of
                           (am2, interruption) \<Rightarrow>
                             (case processAudioFrame participantId audioBuffer now
                                     (voiceDetection am2) of
                                (err, vd, detected) \<Rightarrow>
                                  (case dispatch detected now (am2\<lparr> voiceDetection := vd \<rparr>) of
                                     (am3, out) \<Rightarrow>
                                       (case err of
                                          Some e \<Rightarrow> (Some e, am3, interruption @ out)
                                        | None \<Rightarrow>
                                            (None, am3,
                                             interruption @ out
                                               @ [VolumeDetected participantId volume]))))))))"

text \<open>A debounce timer of the monitor's detector fires.\<close>

definition monitorFireTimer :: "participant \<Rightarrow> int \<Rightarrow> AudioMonitor \<Rightarrow> AudioMonitor \<times> event list" where
  "monitorFireTimer participantId now am =
     (case fireTimer participantId now (voiceDetection am) of
        (vd, detected) \<Rightarrow> dispatch detected now (am\<lparr> voiceDetection := vd \<rparr>))"

subsection \<open>Runs\<close>

text \<open>
  What can happen to a monitor, each with the clock reading at that moment. An exception
  thrown by a frame is caught by the caller (\<open>processAudioStream\<close>); the monitor stays as
  the throwing call left it.
\<close>

datatype input =
    Frame participant buffer int
  | TimerFires participant int
  | StartMonitoring participant int
  | StopMonitoring participant

fun monitorStep :: "input \<Rightarrow> AudioMonitor \<Rightarrow> AudioMonitor \<times> event list" where
  "monitorStep (Frame participantId audioBuffer now) am =
     (case monitorProcessAudioFrame participantId audioBuffer now am of
        (err, am1, out) \<Rightarrow> (am1, out))"
| "monitorStep (TimerFires participantId now) am = monitorFireTimer participantId now am"
| "monitorStep (StartMonitoring participantId now) am = (startMonitoring participantId now am, [])"
| "monitorStep (StopMonitoring participantId) am = (stopMonitoring participantId am, [])"

fun monitorRun :: "input list \<Rightarrow> AudioMonitor \<Rightarrow> AudioMonitor \<times> event list" where
  "monitorRun [] am = (am, [])"
| "monitorRun (x # xs) am =
     (case monitorStep x am of
        (am1, out1) \<Rightarrow> (case monitorRun xs am1 of (am2, out2) \<Rightarrow> (am2, out1 @ out2)))"

text \<open>The same for a detector used on its own: frames and timers of one participant.\<close>

datatype detectorInput = AudioFrame buffer int | DebounceElapsed int

fun detectorStep :: "participant \<Rightarrow> detectorInput \<Rightarrow> VoiceDetection \<Rightarrow> VoiceDetection \<times> event list" where
  "detectorStep participantId (AudioFrame audioBuffer now) vd =
     (case processAudioFrame participantId audioBuffer now vd of (err, vd1, out) \<Rightarrow> (vd1, out))"
| "detectorStep participantId (DebounceElapsed now) vd = fireTimer participantId now vd"

fun detectorRun :: "participant \<Rightarrow> detectorInput list \<Rightarrow> VoiceDetection \<Rightarrow> VoiceDetection \<times> event list" where
  "detectorRun participantId [] vd = (vd, [])"
| "detectorRun participantId (x # xs) vd =
     (case detectorStep participantId x vd of
        (vd1, out1) \<Rightarrow>
          (case detectorRun participantId xs vd1 of (vd2, out2) \<Rightarrow> (vd2, out1 @ out2)))"

fun eventParticipant :: "event \<Rightarrow> participant" where
  "eventParticipant (SpeechStarted p) = p"
| "eventParticipant (SpeechEnded p b) = p"
| "eventParticipant (SpeechTurn p b d) = p"
| "eventParticipant (SpeakingStarted p) = p"
| "eventParticipant (SpeakingStopped p b) = p"
| "eventParticipant (VolumeDetected p v) = p"
| "eventParticipant (InterruptionDetected p) = p"

section \<open>LiveKitService: resampling\<close>

text \<open>
  \<open>readInt16LE\<close> at an offset computed as a number: a negative offset throws like one
  past the end.
\<close>

definition readInt16LE_at :: "buffer \<Rightarrow> int \<Rightarrow> error + int" where
  "readInt16LE_at buf offset =
     (if offset < 0 then Inl RangeError else readInt16LE buf (nat offset))"

text \<open>\<open>Math.round\<close>: the nearest integer, a half rounding up.\<close>

definition js_round :: "real \<Rightarrow> int" where
  "js_round x = \<lfloor>x + 1 / 2\<rfloor>"

text \<open>
  The body of the \<open>for\<close> loop of \<open>resampleAudio\<close> up to the write: the sample for output
  index \<open>i\<close>. The offset \<open>(inputSamples - 1) * 2\<close> of the last sample is the length of
  the input minus 2. The product \<open>i * ratio\<close>, the difference \<open>srcIndex - srcIndexInt\<close> and
  the four operations of the interpolation are rounded; the loop only runs with a ratio
  and positions far below the largest double, so none of them overflows. Counts, indices
  and offsets are integers and halves of integers far below \<open>2^53\<close>, on which the
  operations are exact.
\<close>

definition resampleSample :: "buffer \<Rightarrow> real \<Rightarrow> real \<Rightarrow> nat \<Rightarrow> error + int" where
  "resampleSample inputBuffer inputSamples ratio i =
     (let srcIndex = toDouble (real i * ratio);
          srcIndexInt = \<lfloor>srcIndex\<rfloor>;
          srcIndexFrac = toDouble (srcIndex - of_int srcIndexInt)
      in if of_int srcIndexInt < inputSamples - 1
         then (case readInt16LE_at inputBuffer (srcIndexInt * 2) of
                 Inl e \<Rightarrow> Inl e
               | Inr sample1 \<Rightarrow>
                   (case readInt16LE_at inputBuffer ((srcIndexInt + 1) * 2) of
                      Inl e \<Rightarrow> Inl e
                    | Inr sample2 \<Rightarrow>
                        Inr (js_round
                               (toDouble (toDouble (of_int sample1 * toDouble (1 - srcIndexFrac))
                                          + toDouble (of_int sample2 * srcIndexFrac))))))
         else readInt16LE_at inputBuffer (int (length inputBuffer) - 2))"

function resampleAudio_loop ::
  "buffer \<Rightarrow> real \<Rightarrow> real \<Rightarrow> nat \<Rightarrow> nat \<Rightarrow> buffer \<Rightarrow> error + buffer" where
  "resampleAudio_loop inputBuffer inputSamples ratio outputSamples i outputBuffer =
     (if i < outputSamples
      then (case resampleSample inputBuffer inputSamples ratio i of
              Inl e \<Rightarrow> Inl e
            | Inr v \<Rightarrow>
                (case writeInt16LE outputBuffer v (i * 2) of
                   Inl e \<Rightarrow> Inl e
                 | Inr written \<Rightarrow>
                     resampleAudio_loop inputBuffer inputSamples ratio outputSamples (i + 1) written))
      else Inr outputBuffer)"
  by pat_completeness auto
termination
  by (relation "measure (\<lambda>(inputBuffer, inputSamples, ratio, outputSamples, i, outputBuffer).
        outputSamples - i)") auto

declare resampleAudio_loop.simps [simp del]

text \<open>
  \<open>resampleAudio\<close>. The rates are finite numbers. \<open>Buffer.alloc\<close> refuses a size that is
  \<open>NaN\<close>, infinite or negative: that is the case when the ratio is 0 (a zero \<open>fromRate\<close>, or
  a quotient of the rates too small for a double) and when \<open>inputSamples / ratio\<close>
  overflows. With an infinite ratio (a zero \<open>toRate\<close>, or a quotient of the rates beyond
  the largest double) \<open>outputSamples\<close> is 0 and the loop has no iteration. (The upper limit
  of \<open>Buffer.alloc\<close> on the size is not modelled.)
\<close>

definition resampleAudio :: "buffer \<Rightarrow> real \<Rightarrow> real \<Rightarrow> error + buffer" where
  "resampleAudio inputBuffer fromRate toRate =
     (if fromRate = toRate then Inr inputBuffer
      else (let ratio = number_divide (Finite fromRate) (Finite toRate);
                inputSamples = real (length inputBuffer) / 2
            in case number_divide (Finite inputSamples) ratio of
                 Finite sampleQuotient \<Rightarrow>
                   (let outputSamples = \<lfloor>sampleQuotient\<rfloor>
                    in if outputSamples < 0 then Inl RangeError
                       else (case ratio of
                               Finite finiteRatio \<Rightarrow>
                                 resampleAudio_loop inputBuffer inputSamples finiteRatio
                                   (nat outputSamples) 0 (replicate (nat outputSamples * 2) 0)
                             | _ \<Rightarrow> Inr (replicate (nat outputSamples * 2) 0)))
               | _ \<Rightarrow> Inl RangeError))"

section \<open>LiveKitService: handing finished turns to transcription\<close>

text \<open>
  The entry of \<open>userStates\<close> for a participant (\<open>lastActivity\<close> and \<open>buffers\<close> in the
  source; the detector's record has taken the names).
\<close>

record UserState =
  isProcessing :: bool
  userLastActivity :: int
  userBuffers :: "buffer list"

text \<open>
  The part of the service that \<open>processSpeechTurn\<close> works on: the user states, and the
  buffers handed to \<open>transcribeAudio\<close> so far, oldest first.
\<close>

record LiveKitService =
  userStates :: "participant \<rightharpoonup> UserState"
  transcribed :: "(participant \<times> buffer) list"

text \<open>The listener on \<open>speakingStarted\<close> creates the user state and empties its buffers.\<close>

definition onSpeakingStarted :: "participant \<Rightarrow> int \<Rightarrow> LiveKitService \<Rightarrow> LiveKitService" where
  "onSpeakingStarted participantId now svc =
     (let userState = (case userStates svc participantId of
                         None \<Rightarrow> \<lparr> isProcessing = False, userLastActivity = now, userBuffers = [] \<rparr>
                       | Some u \<Rightarrow> u)
      in svc\<lparr> userStates := (userStates svc)(participantId \<mapsto>
                userState\<lparr> userLastActivity := now, userBuffers := [] \<rparr>) \<rparr>)"

text \<open>
  \<open>processSpeechTurn\<close> of the service is asynchronous. Its first part runs inside the
  call: the two guards, setting \<open>isProcessing\<close>, and the call of \<open>transcribeAudio\<close> with
  the buffer. Its \<open>finally\<close> block runs when the awaited work has settled, and clears the
  flag of the user state it started with.
\<close>

definition serviceProcessSpeechTurn :: "participant \<Rightarrow> buffer \<Rightarrow> LiveKitService \<Rightarrow> LiveKitService" where
  "serviceProcessSpeechTurn participantId audioBuffer svc =
     (case userStates svc participantId of
        None \<Rightarrow> svc
      | Some userState \<Rightarrow>
          (if isProcessing userState then svc
           else svc\<lparr> userStates := (userStates svc)(participantId \<mapsto>
                        userState\<lparr> isProcessing := True \<rparr>),
                     transcribed := transcribed svc @ [(participantId, audioBuffer)] \<rparr>))"

definition serviceProcessSpeechTurn_finally :: "participant \<Rightarrow> LiveKitService \<Rightarrow> LiveKitService" where
  "serviceProcessSpeechTurn_finally participantId svc =
     (case userStates svc participantId of
        None \<Rightarrow> svc
      | Some userState \<Rightarrow>
          svc\<lparr> userStates := (userStates svc)(participantId \<mapsto>
                 userState\<lparr> isProcessing := False \<rparr>) \<rparr>)"

text \<open>What happens to the service, in order.\<close>

datatype serviceInput =
    SpeakingStartedFor participant int
  | TurnFinalized participant buffer
  | ProcessingSettled participant

fun serviceStep :: "serviceInput \<Rightarrow> LiveKitService \<Rightarrow> LiveKitService" where
  "serviceStep (SpeakingStartedFor participantId now) svc = onSpeakingStarted participantId now svc"
| "serviceStep (TurnFinalized participantId audioBuffer) svc =
     serviceProcessSpeechTurn participantId audioBuffer svc"
| "serviceStep (ProcessingSettled participantId) svc =
     serviceProcessSpeechTurn_finally participantId svc"

definition serviceRun :: "serviceInput list \<Rightarrow> LiveKitService \<Rightarrow> LiveKitService" where
  "serviceRun inputs svc = foldl (\<lambda>s x. serviceStep x s) svc inputs"

definition newService :: LiveKitService where
  "newService = \<lparr> userStates = Map.empty, transcribed = [] \<rparr>"

section \<open>Notions used to state the properties\<close>

text \<open>The bytes held by a list of buffers.\<close>

definition bufferedBytes :: "buffer list \<Rightarrow> int" where
  "bufferedBytes bufs = (\<Sum>b\<leftarrow>bufs. int (length b))"

text \<open>
  The state \<open>processAudioFrame\<close> works on: the participant's entry, or the fresh one that
  \<open>initializeParticipantState\<close> stores when there is none.
\<close>

definition entryState :: "VoiceDetection \<Rightarrow> participant \<Rightarrow> int \<Rightarrow> VoiceActivityState" where
  "entryState vd participantId now =
     (case participantStates vd participantId of None \<Rightarrow> initialState now | Some state \<Rightarrow> state)"

text \<open>
  Names for the intermediate values of \<open>processAudioFrame\<close>: the detector once the
  participant has an entry, the entry after the frame has been pushed and counted, and the
  detector holding that entry.
\<close>

definition ensureState :: "participant \<Rightarrow> int \<Rightarrow> VoiceDetection \<Rightarrow> VoiceDetection" where
  "ensureState participantId now vd =
     (if participantStates vd participantId = None
      then initializeParticipantState participantId now vd else vd)"

definition frameState :: "participant \<Rightarrow> buffer \<Rightarrow> int \<Rightarrow> real \<Rightarrow> VoiceDetection \<Rightarrow> VoiceActivityState" where
  "frameState participantId audioBuffer now rms vd =
     countFrame (config vd) rms (pushFrame audioBuffer now (entryState vd participantId now))"

definition storeFrame :: "participant \<Rightarrow> buffer \<Rightarrow> int \<Rightarrow> real \<Rightarrow> VoiceDetection \<Rightarrow> VoiceDetection" where
  "storeFrame participantId audioBuffer now rms vd =
     (ensureState participantId now vd)
       \<lparr> participantStates := (participantStates (ensureState participantId now vd))
            (participantId \<mapsto> frameState participantId audioBuffer now rms vd) \<rparr>"

text \<open>What \<open>processSpeechTurn\<close> emits for a given entry.\<close>

definition turnEvents :: "VoiceDetectionConfig \<Rightarrow> participant \<Rightarrow> int \<Rightarrow> VoiceActivityState \<Rightarrow> event list" where
  "turnEvents cfg participantId now state =
     (if now - speechStartTime state < minSpeechDuration cfg then []
      else if buffers state = [] \<or> totalLength state = 0 then []
      else if \<not> isValidAudioBuffer (concat (buffers state)) then []
      else [SpeechEnded participantId (concat (buffers state)),
            SpeechTurn participantId (concat (buffers state)) (now - speechStartTime state)])"

text \<open>An entry whose byte count is right and within the ceiling; a frame of at most 10 MiB.\<close>

definition withinCeiling :: "VoiceActivityState \<Rightarrow> bool" where
  "withinCeiling state =
     (totalLength state = bufferedBytes (buffers state) \<and> totalLength state \<le> maxBufferSize)"

fun frameWithinCeiling :: "detectorInput \<Rightarrow> bool" where
  "frameWithinCeiling (AudioFrame audioBuffer now) = (int (length audioBuffer) \<le> maxBufferSize)"
| "frameWithinCeiling (DebounceElapsed now) = True"

text \<open>
  How \<open>processAudioFrame\<close> classifies a frame: speech is tested first, silence only when
  the frame is not speech; a frame whose loudness cannot be computed is neither.
\<close>

definition speechFrame :: "VoiceDetectionConfig \<Rightarrow> buffer \<Rightarrow> bool" where
  "speechFrame cfg audioBuffer =
     (case calculateRMS audioBuffer of Inl e \<Rightarrow> False | Inr rms \<Rightarrow> rms > speechThreshold cfg)"

definition silenceFrame :: "VoiceDetectionConfig \<Rightarrow> buffer \<Rightarrow> bool" where
  "silenceFrame cfg audioBuffer =
     (case calculateRMS audioBuffer of
        Inl e \<Rightarrow> False
      | Inr rms \<Rightarrow> \<not> rms > speechThreshold cfg \<and> rms < silenceThreshold cfg)"

definition rmsOf :: "buffer \<Rightarrow> real" where
  "rmsOf audioBuffer = (case calculateRMS audioBuffer of Inl e \<Rightarrow> 0 | Inr rms \<Rightarrow> rms)"

text \<open>A list of frames with their clock readings, as inputs of a run.\<close>

definition frames :: "(buffer \<times> int) list \<Rightarrow> detectorInput list" where
  "frames fs = map (\<lambda>(audioBuffer, now). AudioFrame audioBuffer now) fs"

text \<open>
  The participant is in a turn that started at \<open>t0\<close> with \<open>k\<close> silence frames counted;
  the participant's entry holds exactly the buffers \<open>bufs\<close>; the participant is idle with
  no speech frame counted.
\<close>

definition inTurn :: "VoiceDetection \<Rightarrow> participant \<Rightarrow> int \<Rightarrow> nat \<Rightarrow> bool" where
  "inTurn vd participantId t0 k =
     (case participantStates vd participantId of
        None \<Rightarrow> False
      | Some state \<Rightarrow>
          isSpeaking state \<and> speechStartTime state = t0 \<and> silenceFrameCount state = k)"

definition holding :: "VoiceDetection \<Rightarrow> participant \<Rightarrow> buffer list \<Rightarrow> bool" where
  "holding vd participantId bufs =
     (case participantStates vd participantId of
        None \<Rightarrow> False
      | Some state \<Rightarrow> buffers state = bufs \<and> totalLength state = bufferedBytes bufs)"

definition idleSince :: "VoiceDetection \<Rightarrow> participant \<Rightarrow> int \<Rightarrow> bool" where
  "idleSince vd participantId t0 =
     (case participantStates vd participantId of
        None \<Rightarrow> False
      | Some state \<Rightarrow>
          \<not> isSpeaking state \<and> speechStartTime state = t0 \<and> speechFrameCount state = 0)"


text \<open>
  Frames used in the examples: \<open>loudFrame\<close> is one sample of full negative amplitude (RMS 1);
  \<open>quietFrame\<close> is 625 samples, one of value 4096 and the others 0 (RMS 0.005);
  \<open>zeroFrame n\<close> is \<open>n\<close> samples of value 0.
\<close>

definition loudFrame :: buffer where
  "loudFrame = [0, 128]"


definition zeroFrame :: "nat \<Rightarrow> buffer" where
  "zeroFrame n = replicate (2 * n) 0"






text \<open>
  The number of volumes in a participant's window; whether an input is a frame of the
  participant; whether an input starts monitoring the participant.
\<close>

definition windowLength :: "AudioMonitor \<Rightarrow> participant \<Rightarrow> nat" where
  "windowLength am participantId =
     (case volumeBuffers am participantId of None \<Rightarrow> 0 | Some w \<Rightarrow> length w)"

fun isFrameOf :: "participant \<Rightarrow> input \<Rightarrow> bool" where
  "isFrameOf p (Frame q audioBuffer now) = (q = p)"
| "isFrameOf p x = False"

fun startsMonitoring :: "participant \<Rightarrow> input \<Rightarrow> bool" where
  "startsMonitoring p (StartMonitoring q now) = (q = p)"
| "startsMonitoring p x = False"

text \<open>
  The volume of a frame; the mean of a window as \<open>checkForInterruption\<close> computes it
  (the volumes added from the left and the sum divided by their number, in double
  precision); and the window \<open>checkForInterruption\<close> looks at once \<open>updateVolumeBuffer\<close>
  has pushed a volume.
\<close>

definition volumeOf :: "buffer \<Rightarrow> real" where
  "volumeOf audioBuffer = (case calculateVolume audioBuffer of Inl e \<Rightarrow> 0 | Inr volume \<Rightarrow> volume)"

definition windowMean :: "real list \<Rightarrow> number" where
  "windowMean w =
     number_divide (foldl (\<lambda>sum v. number_add sum (Finite v)) (Finite 0) w)
       (Finite (real (length w)))"

definition windowAfterPush :: "AudioMonitor \<Rightarrow> participant \<Rightarrow> real \<Rightarrow> real list" where
  "windowAfterPush am participantId volume =
     (let pushed = (case volumeBuffers am participantId of None \<Rightarrow> [] | Some vb \<Rightarrow> vb) @ [volume]
      in if int (length pushed) > volumeWindowSize (monitorConfig am) then tl pushed else pushed)"

text \<open>
  A frame of 25 samples: the first has the given high byte and a zero low byte, the
  others are 0. With high bytes 64, 128 and 96 the first sample is 16384, -32768 and
  24576, and \<open>calculateVolume\<close> returns the doubles written 0.1, 0.2 and 0.15.
\<close>

definition pulseFrame :: "byte \<Rightarrow> buffer" where
  "pulseFrame hi = [0, hi] @ replicate (2 * 24) 0"

text \<open>Nothing is kept for the participant: no monitor state, no detector entry, no timer.\<close>

definition forgotten :: "AudioMonitor \<Rightarrow> participant \<Rightarrow> bool" where
  "forgotten am participantId =
     (monitorStates am participantId = None
      \<and> volumeBuffers am participantId = None
      \<and> participantStates (voiceDetection am) participantId = None
      \<and> debounceTimers (voiceDetection am) participantId = None)"

fun inputParticipant :: "input \<Rightarrow> participant" where
  "inputParticipant (Frame p audioBuffer now) = p"
| "inputParticipant (TimerFires p now) = p"
| "inputParticipant (StartMonitoring p now) = p"
| "inputParticipant (StopMonitoring p) = p"

text \<open>
  The resampler in the words of its description: the \<open>j\<close>-th 16-bit sample of a buffer,
  and the output sample at index \<open>i\<close> for a ratio, either the rounded linear
  interpolation of the two input samples that bracket the source position \<open>i * ratio\<close>, or
  the last input sample when that position has no sample after it. The position, its
  fractional part and the interpolation are computed in double precision.
\<close>

definition sampleAt :: "buffer \<Rightarrow> nat \<Rightarrow> int" where
  "sampleAt buf j = sample16 (buf ! (2 * j)) (buf ! (2 * j + 1))"

definition interpolatedSample :: "buffer \<Rightarrow> real \<Rightarrow> nat \<Rightarrow> int" where
  "interpolatedSample buf ratio i =
     (let position = toDouble (real i * ratio);
          below = nat \<lfloor>position\<rfloor>;
          fraction = toDouble (position - real below)
      in if below + 1 < length buf div 2
         then \<lfloor>toDouble (toDouble (real_of_int (sampleAt buf below) * toDouble (1 - fraction))
                        + toDouble (real_of_int (sampleAt buf (below + 1)) * fraction))
                + 1 / 2\<rfloor>
         else sampleAt buf (length buf div 2 - 1))"

section \<open>Properties of the rounding\<close>

text \<open>The binade of a nonzero real brackets it between two powers of 2, and is the only exponent that does.\<close>

lemma powi_nat: "0 \<le> k \<Longrightarrow> (2 :: real) powi k = 2 ^ nat k"
  by (simp add: power_int_def)

lemma binade_bounds:
  assumes "x \<noteq> 0"
  shows "2 powi (binade x) \<le> \<bar>x\<bar>" and "\<bar>x\<bar> < 2 powi (binade x + 1)"
proof -
  define a where "a = \<bar>x\<bar>"
  have a: "0 < a" using assms by (simp add: a_def)
  have "2 powi (binade x) \<le> a \<and> a < 2 powi (binade x + 1)"
  proof (cases "1 \<le> a")
    case True
    define n where "n = \<lfloor>a\<rfloor>"
    have n: "0 < n" using True by (simp add: n_def)
    have b: "binade x = bitlen n - 1" using True by (simp add: binade_def a_def n_def)
    have bl: "1 \<le> bitlen n" using n bitlen_eq_zero_iff [of n] bitlen_nonneg [of n] by linarith
    from bitlen_bounds [OF n] have lo: "2 ^ nat (bitlen n - 1) \<le> n" and hi: "n < 2 ^ nat (bitlen n)"
      by simp_all
    have "real_of_int (2 ^ nat (bitlen n - 1)) \<le> real_of_int n" using lo by (simp only: of_int_le_iff)
    moreover have "real_of_int (2 ^ nat (bitlen n - 1)) = (2 :: real) ^ nat (bitlen n - 1)" by simp
    moreover have "real_of_int n \<le> a" by (simp add: n_def)
    ultimately have "(2 :: real) ^ nat (bitlen n - 1) \<le> a" by linarith
    then have 1: "2 powi (binade x) \<le> a" using bl by (simp add: b powi_nat)
    have "n + 1 \<le> 2 ^ nat (bitlen n)" using hi by simp
    then have "real_of_int (n + 1) \<le> real_of_int (2 ^ nat (bitlen n))" by (simp only: of_int_le_iff)
    moreover have "real_of_int (2 ^ nat (bitlen n)) = (2 :: real) ^ nat (bitlen n)" by simp
    moreover have "real_of_int (n + 1) = real_of_int n + 1" by simp
    moreover have "a < real_of_int n + 1" by (simp add: n_def)
    ultimately have "a < (2 :: real) ^ nat (bitlen n)" by linarith
    then have 2: "a < 2 powi (binade x + 1)" using bl by (simp add: b powi_nat)
    from 1 2 show ?thesis by simp
  next
    case False
    then have a1: "a < 1" by simp
    define N where "N = \<lceil>1 / a\<rceil>"
    have inv: "1 < 1 / a" using a a1 by simp
    then have N2: "2 \<le> N" unfolding N_def by linarith
    define m where "m = N - 1"
    have m: "0 < m" using N2 by (simp add: m_def)
    have b: "binade x = - bitlen m" using False by (simp add: binade_def a_def N_def m_def)
    have bl: "1 \<le> bitlen m" using m bitlen_eq_zero_iff [of m] bitlen_nonneg [of m] by linarith
    from bitlen_bounds [OF m] have lo: "2 ^ nat (bitlen m - 1) \<le> m" and hi: "m < 2 ^ nat (bitlen m)"
      by simp_all
    have "N \<le> 2 ^ nat (bitlen m)" using hi by (simp add: m_def)
    then have "real_of_int N \<le> real_of_int (2 ^ nat (bitlen m))" by (simp only: of_int_le_iff)
    moreover have "real_of_int (2 ^ nat (bitlen m)) = (2 :: real) ^ nat (bitlen m)" by simp
    moreover have "1 / a \<le> real_of_int N" by (simp add: N_def)
    ultimately have "1 / a \<le> (2 :: real) ^ nat (bitlen m)" by linarith
    then have "1 \<le> (2 :: real) ^ nat (bitlen m) * a" using a by (simp add: field_simps)
    then have "1 / (2 :: real) ^ nat (bitlen m) \<le> a" by (simp add: field_simps)
    moreover have "(2 :: real) powi (- bitlen m) = 1 / 2 ^ nat (bitlen m)"
      using bl by (simp add: power_int_def field_simps)
    ultimately have 1: "2 powi (binade x) \<le> a" by (simp add: b)
    have "real_of_int (2 ^ nat (bitlen m - 1)) \<le> real_of_int m" using lo by (simp only: of_int_le_iff)
    moreover have "real_of_int (2 ^ nat (bitlen m - 1)) = (2 :: real) ^ nat (bitlen m - 1)" by simp
    moreover have "real_of_int m = real_of_int N - 1" by (simp add: m_def)
    ultimately have "(2 :: real) ^ nat (bitlen m - 1) \<le> real_of_int N - 1" by linarith
    moreover have "real_of_int N - 1 < 1 / a" unfolding N_def by linarith
    ultimately have "(2 :: real) ^ nat (bitlen m - 1) < 1 / a" by linarith
    then have "(2 :: real) ^ nat (bitlen m - 1) * a < 1" using a by (simp add: field_simps)
    then have lt: "a < 1 / (2 :: real) ^ nat (bitlen m - 1)" by (simp add: field_simps)
    have "(2 :: real) powi (- bitlen m + 1) = 1 / 2 ^ nat (bitlen m - 1)"
    proof (cases "bitlen m = 1")
      case True
      then show ?thesis by simp
    next
      case False
      with bl have "- bitlen m + 1 < 0" by simp
      moreover have "nat (- (- bitlen m + 1)) = nat (bitlen m - 1)" by simp
      ultimately show ?thesis by (simp add: power_int_def field_simps)
    qed
    with lt have 2: "a < 2 powi (binade x + 1)" by (simp add: b)
    from 1 2 show ?thesis by simp
  qed
  then show "2 powi (binade x) \<le> \<bar>x\<bar>" and "\<bar>x\<bar> < 2 powi (binade x + 1)"
    by (simp_all add: a_def)
qed

lemma powi_two_strict_mono: "(2 :: real) powi j < 2 powi k \<longleftrightarrow> j < k"
proof
  assume lt: "(2 :: real) powi j < 2 powi k"
  show "j < k"
  proof (rule ccontr)
    assume "\<not> j < k"
    then have "k \<le> j" by simp
    then have "(2 :: real) powi k \<le> 2 powi j" by (intro power_int_increasing) simp_all
    with lt show False by simp
  qed
next
  assume "j < k"
  then show "(2 :: real) powi j < 2 powi k" by (intro power_int_strict_increasing) simp_all
qed

lemma powi_two_mono: "(2 :: real) powi j \<le> 2 powi k \<longleftrightarrow> j \<le> k"
  using powi_two_strict_mono [of k j] by (simp add: not_less [symmetric])

lemma binade_unique:
  assumes "2 powi k \<le> \<bar>x\<bar>" and "\<bar>x\<bar> < 2 powi (k + 1)"
  shows "binade x = k"
proof -
  have "(0 :: real) < 2 powi k" by simp
  with assms(1) have "0 < \<bar>x\<bar>" by linarith
  then have x: "x \<noteq> 0" by simp
  note b = binade_bounds [OF x]
  have "(2 :: real) powi k < 2 powi (binade x + 1)" using assms(1) b(2) by linarith
  then have 1: "k < binade x + 1" by (simp only: powi_two_strict_mono)
  have "(2 :: real) powi (binade x) < 2 powi (k + 1)" using assms(2) b(1) by linarith
  then have 2: "binade x < k + 1" by (simp only: powi_two_strict_mono)
  from 1 2 show ?thesis by simp
qed

lemma roundHalfEven_error: "\<bar>of_int (roundHalfEven y) - y\<bar> \<le> 1 / 2"
  unfolding roundHalfEven_def Let_def by (auto split: if_splits)

lemma roundHalfEven_unique:
  assumes "\<bar>y - of_int m\<bar> < 1 / 2"
  shows "roundHalfEven y = m"
proof -
  from roundHalfEven_error [of y] assms
  have "\<bar>real_of_int (roundHalfEven y) - real_of_int m\<bar> < 1" by linarith
  then have "\<bar>real_of_int (roundHalfEven y - m)\<bar> < 1" by simp
  then have "\<bar>roundHalfEven y - m\<bar> < 1" by linarith
  then show ?thesis by simp
qed

lemma quantum_pos: "0 < quantum x"
  by (simp add: quantum_def)

lemma toDouble_zero: "toDouble 0 = 0"
  by (simp add: toDouble_def)

lemma toDouble_error: "\<bar>toDouble x - x\<bar> \<le> quantum x / 2"
proof (cases "x = 0")
  case True
  then show ?thesis using quantum_pos [of x] by (simp add: toDouble_def)
next
  case False
  define q where "q = quantum x"
  have q: "0 < q" by (simp add: q_def quantum_pos)
  define r where "r = real_of_int (roundHalfEven (x / q))"
  have "\<bar>r - x / q\<bar> \<le> 1 / 2" unfolding r_def by (rule roundHalfEven_error)
  then have "\<bar>r - x / q\<bar> * q \<le> 1 / 2 * q" using q by (intro mult_right_mono) simp_all
  moreover have "\<bar>r - x / q\<bar> * q = \<bar>r * q - x\<bar>"
    using q by (simp add: abs_mult [symmetric] field_simps del: abs_mult)
  ultimately have "\<bar>r * q - x\<bar> \<le> q / 2" by simp
  then show ?thesis using False by (simp add: toDouble_def q_def r_def)
qed

lemma toDouble_nonneg: "0 \<le> x \<Longrightarrow> 0 \<le> toDouble x"
proof (cases "x = 0")
  case False
  assume "0 \<le> x"
  then have "0 \<le> x / quantum x" using quantum_pos [of x] by simp
  then have "0 \<le> \<lfloor>x / quantum x\<rfloor>" by simp
  then have "0 \<le> roundHalfEven (x / quantum x)"
    by (auto simp: roundHalfEven_def Let_def)
  then show ?thesis using False quantum_pos [of x] by (simp add: toDouble_def)
qed (simp add: toDouble_zero)

lemma quantum_le:
  assumes "\<bar>x\<bar> \<le> 2 powi k" and "- 1022 \<le> k" and "x \<noteq> 0"
  shows "quantum x \<le> 2 powi (k - 52)"
proof -
  from binade_bounds(1) [OF assms(3)] assms(1) have "(2 :: real) powi (binade x) \<le> 2 powi k"
    by linarith
  then have "binade x \<le> k" by (simp only: powi_two_mono)
  with assms(2) have "max (binade x) (- 1022) - 52 \<le> k - 52" by simp
  then show ?thesis unfolding quantum_def by (simp only: powi_two_mono)
qed

text \<open>Rounding a value of magnitude at most \<open>2^17\<close> moves it by at most \<open>2^-36\<close>.\<close>

lemma toDouble_error_small:
  assumes "\<bar>x\<bar> \<le> 131072"
  shows "\<bar>toDouble x - x\<bar> \<le> 1 / 68719476736"
proof (cases "x = 0")
  case True
  then show ?thesis by (simp add: toDouble_zero)
next
  case False
  have "(2 :: real) powi 17 = 131072" by simp
  with assms have "\<bar>x\<bar> \<le> 2 powi 17" by simp
  from quantum_le [OF this _ False] have "quantum x \<le> 2 powi (- 35)" by simp
  moreover have "(2 :: real) powi (- 35) = 1 / 34359738368" by (simp add: power_int_minus_divide)
  ultimately have "quantum x / 2 \<le> 1 / 68719476736" by simp
  with toDouble_error [of x] show ?thesis by linarith
qed

lemma toDouble_eqI:
  assumes "2 powi k \<le> \<bar>y\<bar>" and "\<bar>y\<bar> < 2 powi (k + 1)" and "- 1022 \<le> k"
    and "\<bar>y / 2 powi (k - 52) - of_int m\<bar> < 1 / 2"
  shows "toDouble y = of_int m * 2 powi (k - 52)"
proof -
  have "(0 :: real) < 2 powi k" by simp
  with assms(1) have "0 < \<bar>y\<bar>" by linarith
  then have y: "y \<noteq> 0" by simp
  have b: "binade y = k" using assms(1,2) by (rule binade_unique)
  have q: "quantum y = 2 powi (k - 52)" using assms(3) by (simp add: quantum_def b)
  have "roundHalfEven (y / 2 powi (k - 52)) = m" using assms(4) by (rule roundHalfEven_unique)
  then show ?thesis using y by (simp add: toDouble_def q)
qed

text \<open>Evaluating a rounding on a given rational.\<close>

lemmas double_eval = toDouble_def quantum_def binade_def roundHalfEven_def compute_bitlen Let_def

section \<open>Properties of the loudness computation\<close>

lemma square_normalized_nonneg: "0 \<le> square_normalized sample"
  by (simp add: square_normalized_def)

lemma calculateRMS_loop_sum_squares:
  "i \<le> length buf \<Longrightarrow> calculateRMS_loop buf i acc = sum_squares (drop i buf) acc"
proof (induction buf i acc rule: calculateRMS_loop.induct)
  case (1 buf i s)
  show ?case
  proof (cases "i < length buf")
    case False
    with "1.prems" show ?thesis by (simp add: calculateRMS_loop.simps)
  next
    case True
    show ?thesis
    proof (cases "i + 2 \<le> length buf")
      case False
      with True have len: "length buf = Suc i" by simp
      then have "drop i buf = [buf ! i]"
        by (metis Cons_nth_drop_Suc drop_all lessI order_refl)
      moreover have "readInt16LE buf i = Inl RangeError"
        using len by (simp add: readInt16LE_def)
      ultimately show ?thesis using True by (simp add: calculateRMS_loop.simps)
    next
      case two: True
      have d1: "drop i buf = buf ! i # drop (Suc i) buf"
        using True by (simp add: Cons_nth_drop_Suc)
      have d2: "drop (Suc i) buf = buf ! (Suc i) # drop (i + 2) buf"
        using two by (simp add: Cons_nth_drop_Suc)
      have rd: "readInt16LE buf i = Inr (sample16 (buf ! i) (buf ! Suc i))"
        using two by (simp add: readInt16LE_def sample16_def Let_def)
      have "calculateRMS_loop buf (i + 2) (s + square_normalized (sample16 (buf ! i) (buf ! Suc i)))
            = sum_squares (drop (i + 2) buf) (s + square_normalized (sample16 (buf ! i) (buf ! Suc i)))"
        using "1.IH" [OF True rd refl] two by (simp add: square_normalized_def)
      moreover have "calculateRMS_loop buf i s
            = calculateRMS_loop buf (i + 2) (s + square_normalized (sample16 (buf ! i) (buf ! Suc i)))"
        using True rd by (subst calculateRMS_loop.simps) (simp add: Let_def square_normalized_def)
      ultimately show ?thesis by (simp add: d1 d2)
    qed
  qed
qed

lemma sum_squares_even:
  "even (length buf) \<Longrightarrow> \<exists>r. sum_squares buf acc = Inr r \<and> acc \<le> r"
proof (induction buf acc rule: sum_squares.induct)
  case (3 lo hi rest acc)
  then obtain r where r: "sum_squares rest (acc + square_normalized (sample16 lo hi)) = Inr r"
    and le: "acc + square_normalized (sample16 lo hi) \<le> r"
    by auto
  have "acc \<le> r" using le square_normalized_nonneg [of "sample16 lo hi"] by linarith
  with r show ?case by simp
qed simp_all

lemma sum_squares_odd:
  "odd (length buf) \<Longrightarrow> sum_squares buf acc = Inl RangeError"
  by (induction buf acc rule: sum_squares.induct) simp_all

lemma sum_squares_error: "sum_squares buf acc = Inl e \<Longrightarrow> e = RangeError"
  by (induction buf acc rule: sum_squares.induct) simp_all

text \<open>The loop of \<open>calculateVolume\<close> computes the rounded sum of the recursion on the bytes.\<close>

lemma calculateVolume_loop_sum_squares:
  "i \<le> length buf \<Longrightarrow> calculateVolume_loop buf i acc = sum_squares_rounded (drop i buf) acc"
proof (induction buf i acc rule: calculateVolume_loop.induct)
  case (1 buf i s)
  show ?case
  proof (cases "i < length buf")
    case False
    with "1.prems" show ?thesis by (simp add: calculateVolume_loop.simps)
  next
    case True
    show ?thesis
    proof (cases "i + 2 \<le> length buf")
      case False
      with True have len: "length buf = Suc i" by simp
      then have "drop i buf = [buf ! i]"
        by (metis Cons_nth_drop_Suc drop_all lessI order_refl)
      moreover have "readInt16LE buf i = Inl RangeError"
        using len by (simp add: readInt16LE_def)
      ultimately show ?thesis using True by (simp add: calculateVolume_loop.simps)
    next
      case two: True
      let ?next = "toDouble (s + square_normalized_rounded (sample16 (buf ! i) (buf ! Suc i)))"
      have d1: "drop i buf = buf ! i # drop (Suc i) buf"
        using True by (simp add: Cons_nth_drop_Suc)
      have d2: "drop (Suc i) buf = buf ! (Suc i) # drop (i + 2) buf"
        using two by (simp add: Cons_nth_drop_Suc)
      have rd: "readInt16LE buf i = Inr (sample16 (buf ! i) (buf ! Suc i))"
        using two by (simp add: readInt16LE_def sample16_def Let_def)
      have "calculateVolume_loop buf (i + 2) ?next = sum_squares_rounded (drop (i + 2) buf) ?next"
        using "1.IH" [OF True rd refl] two by (simp add: square_normalized_rounded_def)
      moreover have "calculateVolume_loop buf i s = calculateVolume_loop buf (i + 2) ?next"
        using True rd
        by (subst calculateVolume_loop.simps) (simp add: Let_def square_normalized_rounded_def)
      ultimately show ?thesis by (simp add: d1 d2)
    qed
  qed
qed

lemma sum_squares_rounded_even:
  "even (length buf) \<Longrightarrow> \<exists>r. sum_squares_rounded buf acc = Inr r"
  by (induction buf acc rule: sum_squares_rounded.induct) simp_all

lemma sum_squares_rounded_odd:
  "odd (length buf) \<Longrightarrow> sum_squares_rounded buf acc = Inl RangeError"
  by (induction buf acc rule: sum_squares_rounded.induct) simp_all

lemma calculateVolume_even:
  assumes "even (length buf)"
  shows "\<exists>v. calculateVolume buf = Inr v"
proof (cases "length buf < 2")
  case True
  then show ?thesis by (simp add: calculateVolume_def)
next
  case False
  from sum_squares_rounded_even [OF assms, of 0] obtain s
    where "sum_squares_rounded buf 0 = Inr s" by blast
  then have loop: "calculateVolume_loop buf 0 0 = Inr s"
    by (simp add: calculateVolume_loop_sum_squares)
  have cnt: "length buf div 2 \<noteq> 0" using False by simp
  show ?thesis
    using False loop cnt by (simp add: calculateVolume_def divide_by_count_def Let_def)
qed

lemma calculateVolume_odd:
  assumes "odd (length buf)" and "3 \<le> length buf"
  shows "calculateVolume buf = Inl RangeError"
proof -
  have "calculateVolume_loop buf 0 0 = Inl RangeError"
    using sum_squares_rounded_odd [OF assms(1)] by (simp add: calculateVolume_loop_sum_squares)
  then show ?thesis using assms(2) by (simp add: calculateVolume_def)
qed

lemma calculateRMS_even:
  assumes "even (length buf)"
  shows "\<exists>r. calculateRMS buf = Inr r \<and> 0 \<le> r"
proof (cases "length buf < 2")
  case True
  then show ?thesis by (simp add: calculateRMS_def)
next
  case False
  from sum_squares_even [OF assms, of 0] obtain s
    where s: "sum_squares buf 0 = Inr s" and pos: "0 \<le> s" by blast
  have loop: "calculateRMS_loop buf 0 0 = Inr s"
    using s by (simp add: calculateRMS_loop_sum_squares)
  have cnt: "length buf div 2 \<noteq> 0" using False by simp
  have "calculateRMS buf = Inr (sqrt (s / real (length buf div 2)))"
    using False loop cnt by (simp add: calculateRMS_def divide_by_count_def Let_def)
  moreover have "0 \<le> sqrt (s / real (length buf div 2))" using pos by simp
  ultimately show ?thesis by blast
qed

lemma calculateRMS_odd:
  assumes "odd (length buf)" and "3 \<le> length buf"
  shows "calculateRMS buf = Inl RangeError"
proof -
  have "calculateRMS_loop buf 0 0 = Inl RangeError"
    using sum_squares_odd [OF assms(1)] by (simp add: calculateRMS_loop_sum_squares)
  then show ?thesis using assms(2) by (simp add: calculateRMS_def)
qed

lemma calculateRMS_no_zero_divisor: "calculateRMS buf \<noteq> Inl ZeroDivisor"
proof (cases "length buf < 2")
  case True
  then show ?thesis by (simp add: calculateRMS_def)
next
  case False
  then have cnt: "length buf div 2 \<noteq> 0" by simp
  show ?thesis
  proof (cases "sum_squares buf 0")
    case (Inl e)
    then have "e = RangeError" by (rule sum_squares_error)
    with Inl False show ?thesis
      by (simp add: calculateRMS_def calculateRMS_loop_sum_squares)
  next
    case (Inr s)
    with False cnt show ?thesis
      by (simp add: calculateRMS_def calculateRMS_loop_sum_squares divide_by_count_def Let_def)
  qed
qed

lemma processAudioFrame_throws:
  assumes "calculateRMS audioBuffer = Inl e"
  shows "fst (processAudioFrame participantId audioBuffer now vd) = Some e"
proof (cases "participantStates vd participantId")
  case None
  then show ?thesis
    using assms by (simp add: processAudioFrame_def initializeParticipantState_def)
next
  case (Some state)
  then show ?thesis using assms by (simp add: processAudioFrame_def)
qed

lemma monitorProcessAudioFrame_throws:
  assumes "calculateVolume audioBuffer = Inl e"
    and "isMonitoring am" and "monitorStates am participantId = Some state"
  shows "fst (monitorProcessAudioFrame participantId audioBuffer now am) = Some e"
  using assms by (simp add: monitorProcessAudioFrame_def)

section \<open>Loudness of short and odd-length buffers\<close>

text \<open>
  Claim C9. For every buffer shorter than 2 bytes \<open>calculateRMS\<close> returns 0, and on no
  buffer at all does it reach the quotient \<open>sumSquares / sampleCount\<close> with a zero
  \<open>sampleCount\<close>.
\<close>

theorem calculateRMS_short_buffer:
  "(length buf < 2 \<longrightarrow> calculateRMS buf = Inr 0) \<and> calculateRMS buf \<noteq> Inl ZeroDivisor"
  by (simp add: calculateRMS_no_zero_divisor) (simp add: calculateRMS_def)

theorem calculateRMS_short_buffer_witness:
  "length [5 :: byte] < 2 \<and> calculateRMS [5] = Inr 0 \<and> calculateRMS [5] \<noteq> Inl ZeroDivisor"
  using calculateRMS_short_buffer [of "[5]"] by simp

text \<open>
  Claim C10. Both loudness computations read a sample at every even offset below the
  length. On a buffer of even length every read is inside the buffer and a value is
  returned; on a buffer of odd length 3 or more the last read runs one byte past the end
  and throws, and the exception leaves \<open>processAudioFrame\<close> of the detector and of a
  monitor that watches the participant.
\<close>

theorem loudness_reads_in_bounds_iff_even:
  "(even (length buf) \<longrightarrow>
      (\<exists>r. calculateRMS buf = Inr r) \<and> (\<exists>v. calculateVolume buf = Inr v))
   \<and> (odd (length buf) \<and> 3 \<le> length buf \<longrightarrow>
        calculateRMS buf = Inl RangeError \<and> calculateVolume buf = Inl RangeError
        \<and> fst (processAudioFrame p buf now vd) = Some RangeError
        \<and> (isMonitoring am \<and> monitorStates am p \<noteq> None \<longrightarrow>
             fst (monitorProcessAudioFrame p buf now am) = Some RangeError))"
proof (intro conjI impI)
  assume even: "even (length buf)"
  then show "\<exists>r. calculateRMS buf = Inr r" using calculateRMS_even by blast
  from even show "\<exists>v. calculateVolume buf = Inr v" by (rule calculateVolume_even)
next
  assume odd: "odd (length buf) \<and> 3 \<le> length buf"
  then show rms: "calculateRMS buf = Inl RangeError" by (simp add: calculateRMS_odd)
  from odd show vol: "calculateVolume buf = Inl RangeError" by (simp add: calculateVolume_odd)
  show "fst (processAudioFrame p buf now vd) = Some RangeError"
    using rms by (rule processAudioFrame_throws)
  assume "isMonitoring am \<and> monitorStates am p \<noteq> None"
  then show "fst (monitorProcessAudioFrame p buf now am) = Some RangeError"
    using vol monitorProcessAudioFrame_throws by blast
qed

theorem loudness_reads_in_bounds_iff_even_witness:
  "even (length [0, 0 :: byte]) \<and> (\<exists>r. calculateRMS [0, 0] = Inr r)
   \<and> odd (length [1, 2, 3 :: byte]) \<and> 3 \<le> length [1, 2, 3 :: byte]
   \<and> calculateRMS [1, 2, 3] = Inl RangeError
   \<and> isMonitoring (startMonitoring ''alice'' 0 (newAudioMonitor defaultMonitorConfig))
   \<and> monitorStates (startMonitoring ''alice'' 0 (newAudioMonitor defaultMonitorConfig)) ''alice'' \<noteq> None
   \<and> fst (monitorProcessAudioFrame ''alice'' [1, 2, 3] 7
            (startMonitoring ''alice'' 0 (newAudioMonitor defaultMonitorConfig))) = Some RangeError"
  using loudness_reads_in_bounds_iff_even [of "[0, 0]"]
    loudness_reads_in_bounds_iff_even [of "[1, 2, 3]" "''alice''" 7 "newVoiceDetection defaultConfig"
      "startMonitoring ''alice'' 0 (newAudioMonitor defaultMonitorConfig)"]
  by (simp add: startMonitoring_def newAudioMonitor_def)

section \<open>How the detector's operations act on one participant\<close>

lemma resetState_speechEndTime: "resetState (state\<lparr> speechEndTime := t \<rparr>) = resetState state"
  by (simp add: resetState_def)

lemma processSpeechTurn_eq:
  "processSpeechTurn p now vd =
     (resetParticipantState p vd,
      case participantStates vd p of None \<Rightarrow> [] | Some state \<Rightarrow> turnEvents (config vd) p now state)"
  by (auto simp: processSpeechTurn_def resetParticipantState_def turnEvents_def Let_def
      resetState_speechEndTime split: option.splits)

lemma resetParticipantState_simps:
  "participantStates (resetParticipantState p vd) =
     (case participantStates vd p of
        None \<Rightarrow> participantStates vd
      | Some state \<Rightarrow> (participantStates vd)(p \<mapsto> resetState state))"
  "config (resetParticipantState p vd) = config vd"
  "debounceTimers (resetParticipantState p vd) = debounceTimers vd"
  "processingFlags (resetParticipantState p vd) = processingFlags vd"
  by (simp_all add: resetParticipantState_def split: option.splits)

lemma ensureState_simps:
  "participantStates (ensureState p now vd) p = Some (entryState vd p now)"
  "q \<noteq> p \<Longrightarrow> participantStates (ensureState p now vd) q = participantStates vd q"
  "config (ensureState p now vd) = config vd"
  "debounceTimers (ensureState p now vd) = debounceTimers vd"
  "processingFlags (ensureState p now vd) =
     (if participantStates vd p = None then (processingFlags vd)(p \<mapsto> False)
      else processingFlags vd)"
  by (auto simp: ensureState_def entryState_def initializeParticipantState_def)

lemma storeFrame_simps:
  "participantStates (storeFrame p buf now rms vd) p = Some (frameState p buf now rms vd)"
  "q \<noteq> p \<Longrightarrow> participantStates (storeFrame p buf now rms vd) q = participantStates vd q"
  "config (storeFrame p buf now rms vd) = config vd"
  "debounceTimers (storeFrame p buf now rms vd) = debounceTimers vd"
  "processingFlags (storeFrame p buf now rms vd) =
     (if participantStates vd p = None then (processingFlags vd)(p \<mapsto> False)
      else processingFlags vd)"
  by (simp_all add: storeFrame_def ensureState_simps)

lemma processAudioFrame_Inl:
  "calculateRMS buf = Inl e \<Longrightarrow>
     processAudioFrame p buf now vd = (Some e, ensureState p now vd, [])"
  by (simp add: processAudioFrame_def ensureState_def initializeParticipantState_def
      split: option.splits)

lemma processAudioFrame_Inr:
  assumes "calculateRMS buf = Inr rms"
  shows "processAudioFrame p buf now vd =
     (if \<not> isSpeaking (frameState p buf now rms vd)
         \<and> int (speechFrameCount (frameState p buf now rms vd)) \<ge> speechFramesRequired (config vd)
      then (None, handleSpeechStart p now (storeFrame p buf now rms vd))
      else if isSpeaking (frameState p buf now rms vd)
         \<and> int (silenceFrameCount (frameState p buf now rms vd)) \<ge> silenceFramesRequired (config vd)
      then (None, handlePotentialSpeechEnd p now (storeFrame p buf now rms vd), [])
      else if isSpeaking (frameState p buf now rms vd)
         \<and> now - speechStartTime (frameState p buf now rms vd) > maxSpeechDuration (config vd)
      then (None, processSpeechTurn p now (storeFrame p buf now rms vd))
      else (None, storeFrame p buf now rms vd, []))"
proof -
  have entry: "participantStates (ensureState p now vd) p = Some (entryState vd p now)"
    by (rule ensureState_simps)
  have cfg: "config (ensureState p now vd) = config vd" by (rule ensureState_simps)
  have "processAudioFrame p buf now vd =
     (let vd' = ensureState p now vd
      in case participantStates vd' p of
           None \<Rightarrow> (None, vd', [])
         | Some state0 \<Rightarrow>
             (case calculateRMS buf of
                Inl e \<Rightarrow> (Some e, vd', [])
              | Inr rms \<Rightarrow>
                  (let state = countFrame (config vd') rms (pushFrame buf now state0);
                       vd1 = vd'\<lparr> participantStates := (participantStates vd')(p \<mapsto> state) \<rparr>
                   in if \<not> isSpeaking state
                         \<and> int (speechFrameCount state) \<ge> speechFramesRequired (config vd')
                      then (case handleSpeechStart p now vd1 of
                              (vd2, events) \<Rightarrow> (None, vd2, events))
                      else if isSpeaking state
                         \<and> int (silenceFrameCount state) \<ge> silenceFramesRequired (config vd')
                      then (None, handlePotentialSpeechEnd p now vd1, [])
                      else if isSpeaking state
                      then (let speechDuration = now - speechStartTime state
                            in if speechDuration > maxSpeechDuration (config vd')
                               then (case processSpeechTurn p now vd1 of
                                       (vd2, events) \<Rightarrow> (None, vd2, events))
                               else (None, vd1, []))
                      else (None, vd1, []))))"
    unfolding processAudioFrame_def ensureState_def ..
  then show ?thesis
    using assms
    by (simp add: entry cfg Let_def frameState_def storeFrame_def split: prod.splits)
qed

lemma handleSpeechStart_state:
  "participantStates (fst (handleSpeechStart p now vd)) p =
     (if processingFlags vd p = Some True then participantStates vd p
      else map_option (\<lambda>s. s\<lparr> isSpeaking := True, speechStartTime := now, buffers := [],
                               totalLength := 0, speechFrameCount := 0,
                               silenceFrameCount := 0 \<rparr>) (participantStates vd p))"
  by (simp add: handleSpeechStart_def split: option.splits)

lemma handlePotentialSpeechEnd_state:
  "participantStates (handlePotentialSpeechEnd p now vd) p =
     map_option (\<lambda>s. if processingFlags vd p = Some True
                      then resetState (s\<lparr> isSpeaking := False \<rparr>)
                      else s\<lparr> isSpeaking := False \<rparr>) (participantStates vd p)"
  by (simp add: handlePotentialSpeechEnd_def setupDebouncedProcessing_def Let_def
      resetParticipantState_def split: option.splits)

lemma frameState_buffers:
  "(buffers (frameState p buf now rms vd), totalLength (frameState p buf now rms vd)) =
     manageBufferSize_loop (buffers (entryState vd p now) @ [buf])
       (totalLength (entryState vd p now) + int (length buf))"
  by (simp add: frameState_def countFrame_def pushFrame_def manageBufferSize_def Let_def
      split: prod.splits)

lemma frameState_fields:
  "isSpeaking (frameState p buf now rms vd) = isSpeaking (entryState vd p now)"
  "speechStartTime (frameState p buf now rms vd) = speechStartTime (entryState vd p now)"
  "lastActivity (frameState p buf now rms vd) = now"
  "speechFrameCount (frameState p buf now rms vd) =
     (if rms > speechThreshold (config vd) then Suc (speechFrameCount (entryState vd p now))
      else if rms < silenceThreshold (config vd) then 0
      else speechFrameCount (entryState vd p now))"
  "silenceFrameCount (frameState p buf now rms vd) =
     (if rms > speechThreshold (config vd) then 0
      else if rms < silenceThreshold (config vd) then Suc (silenceFrameCount (entryState vd p now))
      else silenceFrameCount (entryState vd p now))"
  by (simp_all add: frameState_def countFrame_def pushFrame_def manageBufferSize_def Let_def
      split: prod.splits)

lemma processAudioFrame_buffers:
  assumes "participantStates (fst (snd (processAudioFrame p buf now vd))) p = Some s'"
  shows "(buffers s', totalLength s') = (buffers (entryState vd p now), totalLength (entryState vd p now))
       \<or> (buffers s', totalLength s') =
            manageBufferSize_loop (buffers (entryState vd p now) @ [buf])
              (totalLength (entryState vd p now) + int (length buf))
       \<or> (buffers s', totalLength s') = ([], 0)"
proof (cases "calculateRMS buf")
  case (Inl e)
  with assms show ?thesis by (simp add: processAudioFrame_Inl ensureState_simps)
next
  case (Inr rms)
  let ?s1 = "frameState p buf now rms vd"
  let ?vd1 = "storeFrame p buf now rms vd"
  have "s' = ?s1 \<or> s' = ?s1\<lparr> isSpeaking := False \<rparr> \<or> (buffers s', totalLength s') = ([], 0)"
    using assms unfolding processAudioFrame_Inr [OF Inr]
    by (auto simp: handleSpeechStart_state handlePotentialSpeechEnd_state storeFrame_simps
        processSpeechTurn_eq resetParticipantState_simps resetState_def
        split: if_splits)
  then show ?thesis using frameState_buffers [of p buf now rms vd] by auto
qed

section \<open>The memory ceiling\<close>

lemma bufferedBytes_append: "bufferedBytes (xs @ ys) = bufferedBytes xs + bufferedBytes ys"
  by (simp add: bufferedBytes_def)

lemma bufferedBytes_drop: "bufferedBytes (drop k xs) = bufferedBytes xs - bufferedBytes (take k xs)"
  using bufferedBytes_append [of "take k xs" "drop k xs"] by simp

lemma manageBufferSize_loop_props:
  "manageBufferSize_loop bufs len = (bufs', len') \<Longrightarrow>
     (\<exists>k. bufs' = drop k bufs \<and> len' = len - bufferedBytes (take k bufs) \<and> k \<le> length bufs - 1)
     \<and> (len' \<le> maxBufferSize \<or> length bufs' \<le> 1)"
proof (induction bufs len arbitrary: bufs' len' rule: manageBufferSize_loop.induct)
  case (1 bufs len)
  show ?case
  proof (cases "len > maxBufferSize \<and> length bufs > 1")
    case False
    with "1.prems" have "bufs' = bufs" "len' = len"
      by (auto simp: manageBufferSize_loop.simps [of bufs len] split: if_splits)
    with False show ?thesis
      by (auto intro!: exI [of _ 0] simp: bufferedBytes_def)
  next
    case True
    with "1.prems" have rec: "manageBufferSize_loop (tl bufs) (len - int (length (hd bufs))) = (bufs', len')"
      by (simp add: manageBufferSize_loop.simps [of bufs len])
    from "1.IH" [OF True rec] obtain k where
      k: "bufs' = drop k (tl bufs)" "len' = len - int (length (hd bufs)) - bufferedBytes (take k (tl bufs))"
         "k \<le> length (tl bufs) - 1"
      and bound: "len' \<le> maxBufferSize \<or> length bufs' \<le> 1" by blast
    from True obtain b rest where bufs: "bufs = b # rest" by (cases bufs) auto
    have "bufs' = drop (Suc k) bufs" using k bufs by simp
    moreover have "len' = len - bufferedBytes (take (Suc k) bufs)"
      using k bufs by (simp add: bufferedBytes_def)
    moreover have "Suc k \<le> length bufs - 1" using k True bufs by (cases rest) auto
    ultimately show ?thesis using bound by blast
  qed
qed

text \<open>
  The loop evicts the \<open>k\<close> oldest buffers, where every shorter eviction would have left
  the count above the ceiling, and it stops as soon as the count is within the ceiling or
  one buffer is left.
\<close>

lemma manageBufferSize_loop_evicts:
  "\<exists>k. k \<le> length bufs - 1
     \<and> manageBufferSize_loop bufs len = (drop k bufs, len - bufferedBytes (take k bufs))
     \<and> (\<forall>j<k. maxBufferSize < len - bufferedBytes (take j bufs))
     \<and> (len - bufferedBytes (take k bufs) \<le> maxBufferSize \<or> k = length bufs - 1)"
proof (induction bufs len rule: manageBufferSize_loop.induct)
  case (1 bufs len)
  show ?case
  proof (cases "len > maxBufferSize \<and> length bufs > 1")
    case False
    then have "manageBufferSize_loop bufs len = (bufs, len)"
      by (subst manageBufferSize_loop.simps) (simp only: if_False)
    with False show ?thesis
      by (intro exI [of _ 0]) (auto simp: bufferedBytes_def)
  next
    case True
    then obtain b rest where bufs: "bufs = b # rest" by (cases bufs) auto
    from "1.IH" [OF True] bufs obtain k where
      k: "k \<le> length rest - 1"
      and res: "manageBufferSize_loop rest (len - int (length b))
                  = (drop k rest, len - int (length b) - bufferedBytes (take k rest))"
      and above: "\<forall>j<k. maxBufferSize < len - int (length b) - bufferedBytes (take j rest)"
      and stop: "len - int (length b) - bufferedBytes (take k rest) \<le> maxBufferSize
                 \<or> k = length rest - 1"
      by auto
    have step: "manageBufferSize_loop bufs len = manageBufferSize_loop rest (len - int (length b))"
      using True bufs by (subst manageBufferSize_loop.simps) simp
    have bytes: "bufferedBytes (take (Suc j) bufs) = int (length b) + bufferedBytes (take j rest)" for j
      by (simp add: bufs bufferedBytes_def)
    have 1: "Suc k \<le> length bufs - 1" using k True bufs by (cases rest) auto
    have 2: "manageBufferSize_loop bufs len
               = (drop (Suc k) bufs, len - bufferedBytes (take (Suc k) bufs))"
      using step res bytes [of k] by (simp add: bufs)
    have 3: "\<forall>j<Suc k. maxBufferSize < len - bufferedBytes (take j bufs)"
    proof (intro allI impI)
      fix j assume j: "j < Suc k"
      show "maxBufferSize < len - bufferedBytes (take j bufs)"
      proof (cases j)
        case 0
        with True show ?thesis by (simp add: bufferedBytes_def)
      next
        case (Suc i)
        with j above have "maxBufferSize < len - int (length b) - bufferedBytes (take i rest)" by simp
        with Suc bytes [of i] show ?thesis by simp
      qed
    qed
    have 4: "len - bufferedBytes (take (Suc k) bufs) \<le> maxBufferSize \<or> Suc k = length bufs - 1"
      using stop bytes [of k] True bufs by (cases rest) auto
    from 1 2 3 4 show ?thesis by blast
  qed
qed

text \<open>Pushing a frame of at most 10 MiB onto an entry within the ceiling keeps it there.\<close>

lemma push_within_ceiling:
  assumes inv: "len = bufferedBytes bufs"
    and small: "int (length buf) \<le> maxBufferSize"
    and res: "manageBufferSize_loop (bufs @ [buf]) (len + int (length buf)) = (bufs', len')"
  shows "len' = bufferedBytes bufs' \<and> len' \<le> maxBufferSize \<and> bufs' \<noteq> []
         \<and> (\<exists>k\<le>length bufs. bufs' = drop k (bufs @ [buf]))"
proof -
  from manageBufferSize_loop_props [OF res] obtain k where
    k: "bufs' = drop k (bufs @ [buf])"
       "len' = len + int (length buf) - bufferedBytes (take k (bufs @ [buf]))"
       "k \<le> length bufs"
    and bound: "len' \<le> maxBufferSize \<or> length bufs' \<le> 1" by auto
  have eq: "len' = bufferedBytes bufs'"
    using k(1,2) inv bufferedBytes_drop [of k "bufs @ [buf]"]
    by (simp add: bufferedBytes_append bufferedBytes_def)
  have ne: "bufs' \<noteq> []" using k(1,3) by simp
  have "len' \<le> maxBufferSize"
  proof (cases "len' \<le> maxBufferSize")
    case False
    with bound have "length bufs' \<le> 1" by simp
    then have "k = length bufs" using k(1,3) by simp
    then have "bufs' = [buf]" using k(1) by simp
    with eq small show ?thesis by (simp add: bufferedBytes_def)
  qed simp
  with eq ne k show ?thesis by blast
qed

lemma debounceCallback_simps:
  "participantStates (fst (debounceCallback p now vd)) =
     participantStates (resetParticipantState p vd)"
  "config (fst (debounceCallback p now vd)) = config vd"
  "debounceTimers (fst (debounceCallback p now vd)) = (debounceTimers vd)(p := None)"
  "processingFlags (fst (debounceCallback p now vd)) = (processingFlags vd)(p \<mapsto> False)"
  "snd (debounceCallback p now vd) =
     (case participantStates vd p of None \<Rightarrow> [] | Some state \<Rightarrow> turnEvents (config vd) p now state)"
  by (simp_all add: debounceCallback_def processSpeechTurn_eq resetParticipantState_def
      split: option.splits)

lemma withinCeiling_initial: "withinCeiling (initialState now)"
  by (simp add: withinCeiling_def initialState_def bufferedBytes_def maxBufferSize_def)

lemma withinCeiling_reset: "withinCeiling (resetState state)"
  by (simp add: withinCeiling_def resetState_def bufferedBytes_def maxBufferSize_def)

lemma withinCeiling_entry:
  "(\<And>s. participantStates vd p = Some s \<Longrightarrow> withinCeiling s) \<Longrightarrow> withinCeiling (entryState vd p now)"
  by (cases "participantStates vd p") (simp_all add: entryState_def withinCeiling_initial)

lemma detectorStep_ceiling:
  assumes small: "frameWithinCeiling x"
    and inv: "\<And>s. participantStates vd p = Some s \<Longrightarrow> withinCeiling s"
    and post: "participantStates (fst (detectorStep p x vd)) p = Some s'"
  shows "withinCeiling s'"
proof (cases x)
  case (AudioFrame buf now)
  let ?s0 = "entryState vd p now"
  have s0: "withinCeiling ?s0" using inv by (rule withinCeiling_entry)
  from post AudioFrame
  have "participantStates (fst (snd (processAudioFrame p buf now vd))) p = Some s'"
    by (simp split: prod.splits)
  from processAudioFrame_buffers [OF this]
  consider "(buffers s', totalLength s') = (buffers ?s0, totalLength ?s0)"
    | "(buffers s', totalLength s') =
         manageBufferSize_loop (buffers ?s0 @ [buf]) (totalLength ?s0 + int (length buf))"
    | "(buffers s', totalLength s') = ([], 0)" by blast
  then show ?thesis
  proof cases
    case 1
    with s0 show ?thesis by (simp add: withinCeiling_def)
  next
    case 2
    have "totalLength ?s0 = bufferedBytes (buffers ?s0)" using s0 by (simp add: withinCeiling_def)
    moreover have "int (length buf) \<le> maxBufferSize" using small AudioFrame by simp
    ultimately show ?thesis
      using push_within_ceiling [OF _ _ 2 [symmetric]] by (simp add: withinCeiling_def)
  next
    case 3
    then show ?thesis by (simp add: withinCeiling_def bufferedBytes_def maxBufferSize_def)
  qed
next
  case (DebounceElapsed now)
  show ?thesis
  proof (cases "participantStates vd p")
    case None
    with post DebounceElapsed show ?thesis
      by (auto simp: fireTimer_def debounceCallback_simps resetParticipantState_simps
          split: option.splits if_splits)
  next
    case (Some s)
    with post DebounceElapsed have "s' = s \<or> s' = resetState s"
      by (auto simp: fireTimer_def debounceCallback_simps resetParticipantState_simps
          split: option.splits if_splits)
    with inv [OF Some] show ?thesis by (auto simp: withinCeiling_reset)
  qed
qed

lemma detectorRun_ceiling:
  assumes "list_all frameWithinCeiling inputs"
    and "\<And>s. participantStates vd p = Some s \<Longrightarrow> withinCeiling s"
    and "participantStates (fst (detectorRun p inputs vd)) p = Some s'"
  shows "withinCeiling s'"
  using assms
proof (induction inputs arbitrary: vd)
  case Nil
  then show ?case by simp
next
  case (Cons x xs)
  let ?vd1 = "fst (detectorStep p x vd)"
  have step: "\<And>s. participantStates ?vd1 p = Some s \<Longrightarrow> withinCeiling s"
    using detectorStep_ceiling [of x vd p] Cons.prems(1,2) by simp
  have "fst (detectorRun p (x # xs) vd) = fst (detectorRun p xs ?vd1)"
    by (simp split: prod.splits)
  with Cons.prems(3) have "participantStates (fst (detectorRun p xs ?vd1)) p = Some s'" by simp
  from Cons.IH [OF _ step this] Cons.prems(1) show ?case by simp
qed

lemma sum_squares_zeros: "sum_squares (replicate (2 * n) 0) acc = Inr acc"
  by (induction n arbitrary: acc) (simp_all add: sample16_def square_normalized_def)

lemma calculateRMS_zeros: "calculateRMS (replicate (2 * n) 0) = Inr 0"
  by (simp add: calculateRMS_def calculateRMS_loop_sum_squares sum_squares_zeros
      divide_by_count_def Let_def)

lemma entryState_new: "entryState (newVoiceDetection cfg) p now = initialState now"
  by (simp add: entryState_def newVoiceDetection_def)

lemma big_frame_rms: "calculateRMS (replicate 10485762 0) = Inr 0"
  using calculateRMS_zeros [of 5242881] by simp

section \<open>Frames inside and outside a turn\<close>

lemma detectorRun_append:
  "detectorRun p (xs @ ys) vd =
     (fst (detectorRun p ys (fst (detectorRun p xs vd))),
      snd (detectorRun p xs vd) @ snd (detectorRun p ys (fst (detectorRun p xs vd))))"
  by (induction xs arbitrary: vd) (simp_all split: prod.splits)

lemma detectorRun_frame:
  "detectorRun p (AudioFrame b t # xs) vd =
     (fst (detectorRun p xs (fst (snd (processAudioFrame p b t vd)))),
      snd (snd (processAudioFrame p b t vd))
        @ snd (detectorRun p xs (fst (snd (processAudioFrame p b t vd)))))"
  by (simp split: prod.splits)

lemma speechFrame_rms:
  "speechFrame cfg b \<Longrightarrow> calculateRMS b = Inr (rmsOf b) \<and> rmsOf b > speechThreshold cfg"
  by (auto simp: speechFrame_def rmsOf_def split: sum.splits)



lemma entryState_storeFrame:
  "entryState (storeFrame p b t r vd) p now = frameState p b t r vd"
  by (simp add: entryState_def storeFrame_simps)

text \<open>A speech frame while idle and below the required count: counted, nothing emitted.\<close>

lemma speech_frame_idle:
  assumes "speechFrame (config vd) b"
    and "\<not> isSpeaking (entryState vd p t)"
    and "int (Suc (speechFrameCount (entryState vd p t))) < speechFramesRequired (config vd)"
  shows "processAudioFrame p b t vd = (None, storeFrame p b t (rmsOf b) vd, [])"
    and "\<not> isSpeaking (frameState p b t (rmsOf b) vd)"
    and "speechFrameCount (frameState p b t (rmsOf b) vd) = Suc (speechFrameCount (entryState vd p t))"
proof -
  from speechFrame_rms [OF assms(1)]
  have rms: "calculateRMS b = Inr (rmsOf b)" and loud: "rmsOf b > speechThreshold (config vd)"
    by simp_all
  show "\<not> isSpeaking (frameState p b t (rmsOf b) vd)"
    using assms(2) by (simp add: frameState_fields)
  show "speechFrameCount (frameState p b t (rmsOf b) vd) = Suc (speechFrameCount (entryState vd p t))"
    using loud by (simp add: frameState_fields)
  show "processAudioFrame p b t vd = (None, storeFrame p b t (rmsOf b) vd, [])"
    unfolding processAudioFrame_Inr [OF rms]
    using assms(2,3) loud by (simp add: frameState_fields)
qed

text \<open>The speech frame that completes the required count starts the turn.\<close>

lemma speech_frame_starts:
  assumes "speechFrame (config vd) b"
    and "\<not> isSpeaking (entryState vd p t)"
    and "int (Suc (speechFrameCount (entryState vd p t))) \<ge> speechFramesRequired (config vd)"
    and "processingFlags vd p \<noteq> Some True"
  shows "snd (snd (processAudioFrame p b t vd)) = [SpeechStarted p]"
    and "inTurn (fst (snd (processAudioFrame p b t vd))) p t 0"
    and "holding (fst (snd (processAudioFrame p b t vd))) p []"
    and "config (fst (snd (processAudioFrame p b t vd))) = config vd"
    and "debounceTimers (fst (snd (processAudioFrame p b t vd))) p = None"
    and "processingFlags (fst (snd (processAudioFrame p b t vd))) p \<noteq> Some True"
proof -
  from speechFrame_rms [OF assms(1)]
  have rms: "calculateRMS b = Inr (rmsOf b)" and loud: "rmsOf b > speechThreshold (config vd)"
    by simp_all
  let ?vd1 = "storeFrame p b t (rmsOf b) vd"
  have flag: "processingFlags ?vd1 p \<noteq> Some True"
    using assms(4) by (simp add: storeFrame_simps)
  have eq: "processAudioFrame p b t vd = (None, handleSpeechStart p t ?vd1)"
    unfolding processAudioFrame_Inr [OF rms]
    using assms(2,3) loud by (simp add: frameState_fields)
  show "snd (snd (processAudioFrame p b t vd)) = [SpeechStarted p]"
    using flag by (simp add: eq handleSpeechStart_def storeFrame_simps)
  show "inTurn (fst (snd (processAudioFrame p b t vd))) p t 0"
    using flag by (simp add: eq handleSpeechStart_def storeFrame_simps inTurn_def)
  show "holding (fst (snd (processAudioFrame p b t vd))) p []"
    using flag by (simp add: eq handleSpeechStart_def storeFrame_simps holding_def bufferedBytes_def)
  show "config (fst (snd (processAudioFrame p b t vd))) = config vd"
    using flag by (simp add: eq handleSpeechStart_def storeFrame_simps)
  show "debounceTimers (fst (snd (processAudioFrame p b t vd))) p = None"
    using flag by (simp add: eq handleSpeechStart_def storeFrame_simps)
  show "processingFlags (fst (snd (processAudioFrame p b t vd))) p \<noteq> Some True"
    using flag by (simp add: eq handleSpeechStart_def storeFrame_simps)
qed

lemma manageBufferSize_loop_small:
  "len \<le> maxBufferSize \<Longrightarrow> manageBufferSize_loop bufs len = (bufs, len)"
  by (simp add: manageBufferSize_loop.simps [of bufs len])

lemma inTurn_entry:
  "inTurn vd p t0 k \<Longrightarrow>
     isSpeaking (entryState vd p now) \<and> speechStartTime (entryState vd p now) = t0
     \<and> silenceFrameCount (entryState vd p now) = k"
  by (auto simp: inTurn_def entryState_def split: option.splits)

lemma holding_entry:
  "holding vd p bufs \<Longrightarrow>
     buffers (entryState vd p now) = bufs \<and> totalLength (entryState vd p now) = bufferedBytes bufs"
  by (auto simp: holding_def entryState_def split: option.splits)

lemma idleSince_entry:
  "idleSince vd p t0 \<Longrightarrow>
     \<not> isSpeaking (entryState vd p now) \<and> speechStartTime (entryState vd p now) = t0
     \<and> speechFrameCount (entryState vd p now) = 0"
  by (auto simp: idleSince_def entryState_def split: option.splits)

text \<open>Storing a frame that fits under the ceiling appends it to what is held.\<close>

lemma storeFrame_holding:
  assumes "holding vd p bufs" and "bufferedBytes (bufs @ [b]) \<le> maxBufferSize"
  shows "holding (storeFrame p b t r vd) p (bufs @ [b])"
proof -
  from holding_entry [OF assms(1), of t]
  have e: "buffers (entryState vd p t) = bufs" "totalLength (entryState vd p t) = bufferedBytes bufs"
    by simp_all
  have "bufferedBytes bufs + int (length b) \<le> maxBufferSize"
    using assms(2) by (simp add: bufferedBytes_def)
  then have "(buffers (frameState p b t r vd), totalLength (frameState p b t r vd))
      = (bufs @ [b], bufferedBytes bufs + int (length b))"
    unfolding frameState_buffers e by (rule manageBufferSize_loop_small)
  then show ?thesis by (simp add: holding_def storeFrame_simps bufferedBytes_def)
qed



lemma calculateRMS_loudFrame: "calculateRMS loudFrame = Inr 1"
  by (simp add: loudFrame_def calculateRMS_def calculateRMS_loop_sum_squares sample16_def
      square_normalized_def divide_by_count_def)

lemma loudFrame_speech: "speechThreshold cfg < 1 \<Longrightarrow> speechFrame cfg loudFrame"
  by (simp add: speechFrame_def calculateRMS_loudFrame)

lemmas detector_eval =
  processAudioFrame_def newVoiceDetection_def defaultConfig_def
  initializeParticipantState_def initialState_def countFrame_def pushFrame_def
  manageBufferSize_def manageBufferSize_loop.simps maxBufferSize_def Let_def
  handleSpeechStart_def handlePotentialSpeechEnd_def setupDebouncedProcessing_def
  processSpeechTurn_def resetParticipantState_def resetState_def isValidAudioBuffer_def
  fireTimer_def debounceCallback_def timeoutDelay_def clearTimer_def frames_def

lemma frames_simps:
  "frames [] = []"
  "frames ((b, t) # fs) = AudioFrame b t # frames fs"
  "frames (fs @ gs) = frames fs @ frames gs"
  by (simp_all add: frames_def)






lemma bufferedBytes_concat: "bufferedBytes bufs = int (length (concat bufs))"
  by (induction bufs) (simp_all add: bufferedBytes_def)

lemma turnEvents_holding:
  assumes "buffers s = bufs" and "totalLength s = bufferedBytes bufs" and "speechStartTime s = t0"
  shows "turnEvents cfg p now s =
     (if minSpeechDuration cfg \<le> now - t0 \<and> isValidAudioBuffer (concat bufs)
      then [SpeechEnded p (concat bufs), SpeechTurn p (concat bufs) (now - t0)] else [])"
proof (cases "isValidAudioBuffer (concat bufs)")
  case False
  then show ?thesis using assms by (simp add: turnEvents_def)
next
  case True
  then have "length (concat bufs) \<ge> 1024" by (simp add: isValidAudioBuffer_def split: if_splits)
  then have pos: "0 < length (concat bufs)" by linarith
  then have "bufferedBytes bufs \<noteq> 0" unfolding bufferedBytes_concat by linarith
  moreover from pos have "bufs \<noteq> []" by auto
  ultimately have "bufferedBytes bufs \<noteq> 0" "bufs \<noteq> []" by simp_all
  with True show ?thesis using assms by (auto simp: turnEvents_def)
qed


lemma turn_starts_on_third_frame:
  assumes "speechFramesRequired (config vd) = 3"
    and "\<not> isSpeaking (entryState vd p t1)"
    and "speechFrameCount (entryState vd p t1) = 0"
    and "processingFlags vd p \<noteq> Some True"
    and "speechFrame (config vd) b1"
    and "speechFrame (config vd) b2"
    and "speechFrame (config vd) b3"
  shows "snd (detectorRun p (frames [(b1, t1)]) vd) = []"
    and "snd (detectorRun p (frames [(b1, t1), (b2, t2)]) vd) = []"
    and "snd (detectorRun p (frames [(b1, t1), (b2, t2), (b3, t3)]) vd) = [SpeechStarted p]"
    and "inTurn (fst (detectorRun p (frames [(b1, t1), (b2, t2), (b3, t3)]) vd)) p t3 0"
    and "holding (fst (detectorRun p (frames [(b1, t1), (b2, t2), (b3, t3)]) vd)) p []"
    and "config (fst (detectorRun p (frames [(b1, t1), (b2, t2), (b3, t3)]) vd)) = config vd"
    and "processingFlags (fst (detectorRun p (frames [(b1, t1), (b2, t2), (b3, t3)]) vd)) p \<noteq> Some True"
proof -
  let ?vd1 = "storeFrame p b1 t1 (rmsOf b1) vd"
  let ?vd2 = "storeFrame p b2 t2 (rmsOf b2) ?vd1"
  let ?vd3 = "fst (snd (processAudioFrame p b3 t3 ?vd2))"
  have cfg1: "config ?vd1 = config vd" and cfg2: "config ?vd2 = config vd"
    by (simp_all add: storeFrame_simps)
  have one: "int (Suc (speechFrameCount (entryState vd p t1))) < speechFramesRequired (config vd)"
    using assms(1,3) by simp
  note s1 = speech_frame_idle [OF assms(5,2) one]
  have e1: "entryState ?vd1 p t2 = frameState p b1 t1 (rmsOf b1) vd"
    by (rule entryState_storeFrame)
  have sp2: "speechFrame (config ?vd1) b2" using assms(6) cfg1 by simp
  have idle2: "\<not> isSpeaking (entryState ?vd1 p t2)" using s1(2) e1 by simp
  have two: "int (Suc (speechFrameCount (entryState ?vd1 p t2))) < speechFramesRequired (config ?vd1)"
    using assms(1,3) s1(3) e1 cfg1 by simp
  note s2 = speech_frame_idle [OF sp2 idle2 two]
  have e2: "entryState ?vd2 p t3 = frameState p b2 t2 (rmsOf b2) ?vd1"
    by (rule entryState_storeFrame)
  have sp3: "speechFrame (config ?vd2) b3" using assms(7) cfg2 by simp
  have idle3: "\<not> isSpeaking (entryState ?vd2 p t3)" using s2(2) e2 by simp
  have three: "int (Suc (speechFrameCount (entryState ?vd2 p t3))) \<ge> speechFramesRequired (config ?vd2)"
    using assms(1,3) s1(3) s2(3) e1 e2 cfg2 by simp
  have flag: "processingFlags ?vd2 p \<noteq> Some True"
    using assms(4) by (simp add: storeFrame_simps)
  note s3 = speech_frame_starts [OF sp3 idle3 three flag]
  have run3: "fst (detectorRun p (frames [(b1, t1), (b2, t2), (b3, t3)]) vd) = ?vd3"
    by (simp add: frames_simps detectorRun_frame s1(1) s2(1) del: detectorRun.simps(2))
  show "snd (detectorRun p (frames [(b1, t1)]) vd) = []"
    by (simp add: frames_simps detectorRun_frame s1(1) del: detectorRun.simps(2))
  show "snd (detectorRun p (frames [(b1, t1), (b2, t2)]) vd) = []"
    by (simp add: frames_simps detectorRun_frame s1(1) s2(1) del: detectorRun.simps(2))
  show "snd (detectorRun p (frames [(b1, t1), (b2, t2), (b3, t3)]) vd) = [SpeechStarted p]"
    by (simp add: frames_simps detectorRun_frame s1(1) s2(1) s3(1) del: detectorRun.simps(2))
  show "inTurn (fst (detectorRun p (frames [(b1, t1), (b2, t2), (b3, t3)]) vd)) p t3 0"
    unfolding run3 by (rule s3(2))
  show "holding (fst (detectorRun p (frames [(b1, t1), (b2, t2), (b3, t3)]) vd)) p []"
    unfolding run3 by (rule s3(3))
  show "config (fst (detectorRun p (frames [(b1, t1), (b2, t2), (b3, t3)]) vd)) = config vd"
    unfolding run3 using s3(4) cfg2 by simp
  show "processingFlags (fst (detectorRun p (frames [(b1, t1), (b2, t2), (b3, t3)]) vd)) p \<noteq> Some True"
    unfolding run3 by (rule s3(6))
qed









lemma turnEvents_SpeechTurn:
  "SpeechTurn q b d \<in> set (turnEvents cfg p now s) \<Longrightarrow>
     minSpeechDuration cfg \<le> d \<and> d = now - speechStartTime s \<and> q = p"
  by (auto simp: turnEvents_def split: if_splits)

lemma handleSpeechStart_events:
  "snd (handleSpeechStart p now vd) = [] \<or> snd (handleSpeechStart p now vd) = [SpeechStarted p]"
  by (simp add: handleSpeechStart_def split: option.splits)

lemma handleSpeechStart_config: "config (fst (handleSpeechStart p now vd)) = config vd"
  by (simp add: handleSpeechStart_def split: option.splits)

lemma handlePotentialSpeechEnd_config: "config (handlePotentialSpeechEnd p now vd) = config vd"
  by (simp add: handlePotentialSpeechEnd_def setupDebouncedProcessing_def Let_def
      resetParticipantState_simps split: option.splits)

lemma processAudioFrame_config: "config (fst (snd (processAudioFrame p b t vd))) = config vd"
proof (cases "calculateRMS b")
  case (Inl e)
  then show ?thesis by (simp add: processAudioFrame_Inl ensureState_simps)
next
  case (Inr rms)
  show ?thesis
    unfolding processAudioFrame_Inr [OF Inr]
    by (simp add: handleSpeechStart_config handlePotentialSpeechEnd_config processSpeechTurn_eq
        resetParticipantState_simps storeFrame_simps)
qed

lemma fireTimer_config: "config (fst (fireTimer p f vd)) = config vd"
  by (simp add: fireTimer_def debounceCallback_simps split: option.splits)

lemma detectorStep_frame: "detectorStep p (AudioFrame b t) vd = snd (processAudioFrame p b t vd)"
  by (simp split: prod.splits)

lemma detectorRun_Cons:
  "detectorRun p (x # xs) vd =
     (fst (detectorRun p xs (fst (detectorStep p x vd))),
      snd (detectorStep p x vd) @ snd (detectorRun p xs (fst (detectorStep p x vd))))"
  by (simp split: prod.splits)

lemma detectorStep_config: "config (fst (detectorStep p x vd)) = config vd"
  by (cases x) (simp_all add: detectorStep_frame processAudioFrame_config fireTimer_config
      del: detectorStep.simps(1))

lemma detectorRun_config: "config (fst (detectorRun p xs vd)) = config vd"
  by (induction xs arbitrary: vd)
     (simp_all add: detectorRun_Cons detectorStep_config del: detectorRun.simps(2))

lemma processAudioFrame_SpeechTurn:
  assumes "SpeechTurn q buf d \<in> set (snd (snd (processAudioFrame p b t vd)))"
  shows "minSpeechDuration (config vd) \<le> d"
proof (cases "calculateRMS b")
  case (Inl e)
  with assms show ?thesis by (simp add: processAudioFrame_Inl)
next
  case (Inr rms)
  from assms show ?thesis
    unfolding processAudioFrame_Inr [OF Inr]
    using handleSpeechStart_events [of p t "storeFrame p b t rms vd"]
      turnEvents_SpeechTurn [of q buf d "config vd" p t "frameState p b t rms vd"]
    by (auto simp: processSpeechTurn_eq storeFrame_simps split: if_splits)
qed

lemma fireTimer_SpeechTurn:
  assumes "SpeechTurn q buf d \<in> set (snd (fireTimer p f vd))"
  shows "minSpeechDuration (config vd) \<le> d"
  using assms turnEvents_SpeechTurn [of q buf d "config vd" p f]
  by (auto simp: fireTimer_def debounceCallback_simps split: option.splits if_splits)

lemma detectorStep_SpeechTurn:
  "SpeechTurn q buf d \<in> set (snd (detectorStep p x vd)) \<Longrightarrow> minSpeechDuration (config vd) \<le> d"
  by (cases x) (auto simp: detectorStep_frame processAudioFrame_SpeechTurn fireTimer_SpeechTurn
      simp del: detectorStep.simps(1))

lemma detectorRun_SpeechTurn:
  "SpeechTurn q buf d \<in> set (snd (detectorRun p xs vd)) \<Longrightarrow> minSpeechDuration (config vd) \<le> d"
proof (induction xs arbitrary: vd)
  case Nil
  then show ?case by simp
next
  case (Cons x xs)
  from Cons.prems
  have "SpeechTurn q buf d \<in> set (snd (detectorStep p x vd))
      \<or> SpeechTurn q buf d \<in> set (snd (detectorRun p xs (fst (detectorStep p x vd))))"
    by (auto simp: detectorRun_Cons simp del: detectorRun.simps(2))
  then show ?case
    using detectorStep_SpeechTurn [of q buf d p x vd]
      Cons.IH [of "fst (detectorStep p x vd)"] detectorStep_config [of p x vd]
    by auto
qed

text \<open>A frame processed after the maximum duration, short of the silence count: the turn is finalized.\<close>

lemma frame_after_max_duration:
  assumes "calculateRMS b = Inr rms" and "inTurn vd p t0 k"
    and "maxSpeechDuration (config vd) < t - t0"
    and "int (silenceFrameCount (frameState p b t rms vd)) < silenceFramesRequired (config vd)"
  shows "processAudioFrame p b t vd = (None, processSpeechTurn p t (storeFrame p b t rms vd))"
    and "snd (snd (processAudioFrame p b t vd)) = turnEvents (config vd) p t (frameState p b t rms vd)"
    and "participantStates (fst (snd (processAudioFrame p b t vd))) p
           = Some (resetState (frameState p b t rms vd))"
proof -
  note e = inTurn_entry [OF assms(2), of t]
  show eq: "processAudioFrame p b t vd = (None, processSpeechTurn p t (storeFrame p b t rms vd))"
    unfolding processAudioFrame_Inr [OF assms(1)]
    using assms(3,4) e by (simp add: frameState_fields)
  show "snd (snd (processAudioFrame p b t vd)) = turnEvents (config vd) p t (frameState p b t rms vd)"
    by (simp add: eq processSpeechTurn_eq storeFrame_simps)
  show "participantStates (fst (snd (processAudioFrame p b t vd))) p
           = Some (resetState (frameState p b t rms vd))"
    by (simp add: eq processSpeechTurn_eq storeFrame_simps resetParticipantState_simps)
qed

lemma calculateRMS_zeroFrame: "calculateRMS (zeroFrame n) = Inr 0"
  unfolding zeroFrame_def by (rule calculateRMS_zeros)

lemma zeroFrame_silence: "0 \<le> speechThreshold cfg \<Longrightarrow> 0 < silenceThreshold cfg \<Longrightarrow> silenceFrame cfg (zeroFrame n)"
  by (simp add: silenceFrame_def calculateRMS_zeroFrame)

lemma zeroFrame_valid:
  assumes "1024 \<le> n"
  shows "isValidAudioBuffer (zeroFrame n)"
proof -
  have "asciiSlice (zeroFrame n) 0 4 \<noteq> [82, 73, 70, 70]"
  proof
    assume eq: "asciiSlice (zeroFrame n) 0 4 = [82, 73, 70, 70]"
    have "set (asciiSlice (zeroFrame n) 0 4) \<subseteq> {0}"
      by (auto simp: asciiSlice_def zeroFrame_def)
    with eq show False by simp
  qed
  then show ?thesis using assms by (simp add: isValidAudioBuffer_def zeroFrame_def)
qed

text \<open>
  The default configuration; three speech frames, then nothing for twelve seconds, then
  one frame of 1024 zero samples.
\<close>

lemma turn_cut_after_gap:
  "snd (detectorRun ''alice''
          (frames [(loudFrame, 0), (loudFrame, 10), (loudFrame, 20), (zeroFrame 1024, 12000)])
          (newVoiceDetection defaultConfig))
   = [SpeechStarted ''alice'', SpeechEnded ''alice'' (zeroFrame 1024),
      SpeechTurn ''alice'' (zeroFrame 1024) 11980]"
proof -
  let ?vd = "newVoiceDetection defaultConfig"
  let ?start = "frames [(loudFrame, 0), (loudFrame, 10), (loudFrame, 20)]"
  let ?vd3 = "fst (detectorRun ''alice'' ?start ?vd)"
  let ?z = "zeroFrame 1024"
  have cfg: "config ?vd = defaultConfig" by (simp add: newVoiceDetection_def)
  have loud: "speechFrame (config ?vd) loudFrame"
    by (rule loudFrame_speech) (simp add: newVoiceDetection_def defaultConfig_def)
  have three: "speechFramesRequired (config ?vd) = 3"
    by (simp add: newVoiceDetection_def defaultConfig_def)
  have idle: "\<not> isSpeaking (entryState ?vd ''alice'' 0)"
    and none: "speechFrameCount (entryState ?vd ''alice'' 0) = 0"
    by (simp_all add: entryState_new initialState_def)
  have flag: "processingFlags ?vd ''alice'' \<noteq> Some True" by (simp add: newVoiceDetection_def)
  note start = turn_starts_on_third_frame(3-7) [OF three idle none flag loud loud loud,
      where ?t2.0 = 10 and ?t3.0 = 20]
  have cfg3: "config ?vd3 = defaultConfig" using start(4) cfg by simp
  have max3: "maxSpeechDuration (config ?vd3) = 10000"
    and min3: "minSpeechDuration (config ?vd3) = 500"
    and sil3: "silenceFramesRequired (config ?vd3) = 20"
    and sth3: "silenceThreshold (config ?vd3) = 1 / 100"
    and spt3: "speechThreshold (config ?vd3) = 1 / 20"
    unfolding cfg3 by (simp_all add: defaultConfig_def)
  let ?s4 = "frameState ''alice'' ?z 12000 0 ?vd3"
  have late: "maxSpeechDuration (config ?vd3) < 12000 - 20" by (simp add: max3)
  have cnt: "int (silenceFrameCount ?s4) < silenceFramesRequired (config ?vd3)"
    using inTurn_entry [OF start(2), of 12000] by (simp add: frameState_fields sil3 sth3 spt3)
  note cut = frame_after_max_duration [OF calculateRMS_zeroFrame start(2) late cnt]
  have fit: "bufferedBytes ([] @ [?z]) \<le> maxBufferSize"
    by (simp add: bufferedBytes_def zeroFrame_def maxBufferSize_def)
  from storeFrame_holding [OF start(3) fit, of 12000 0]
  have bufs: "buffers ?s4 = [?z]" and len: "totalLength ?s4 = bufferedBytes [?z]"
    by (simp_all add: holding_def storeFrame_simps)
  have st: "speechStartTime ?s4 = 20"
    using inTurn_entry [OF start(2), of 12000] by (simp add: frameState_fields)
  have "snd (snd (processAudioFrame ''alice'' ?z 12000 ?vd3))
      = [SpeechEnded ''alice'' ?z, SpeechTurn ''alice'' ?z 11980]"
    unfolding cut(2) turnEvents_holding [OF bufs len st]
    using zeroFrame_valid [of 1024] by (simp add: min3)
  then have "snd (detectorRun ''alice'' (frames [(?z, 12000)]) ?vd3)
      = [SpeechEnded ''alice'' ?z, SpeechTurn ''alice'' ?z 11980]"
    by (simp add: frames_simps detectorRun_frame del: detectorRun.simps(2))
  moreover have "frames [(loudFrame, 0), (loudFrame, 10), (loudFrame, 20), (?z, 12000)]
      = ?start @ frames [(?z, 12000)]" by (simp add: frames_simps)
  ultimately show ?thesis
    by (simp only: detectorRun_append start(1) snd_conv append.simps)
qed

section \<open>Claim C4: the memory ceiling\<close>

text \<open>
  Claim C4, as stated: after every \<open>processAudioFrame\<close> the participant's \<open>totalLength\<close>
  is at most 10 MiB. It fails for a single frame larger than the ceiling: the loop of
  \<open>manageBufferSize\<close> stops when one buffer is left, so a first frame of 10 MiB + 2 bytes
  stays buffered whole.
\<close>

theorem ceiling_exceeded_by_one_frame:
  "map_option buffers
     (participantStates
        (fst (snd (processAudioFrame ''alice'' (replicate 10485762 0) 0
                     (newVoiceDetection defaultConfig)))) ''alice'')
     = Some [replicate 10485762 0]
   \<and> map_option totalLength
     (participantStates
        (fst (snd (processAudioFrame ''alice'' (replicate 10485762 0) 0
                     (newVoiceDetection defaultConfig)))) ''alice'')
     = Some 10485762
   \<and> \<not> (10485762 \<le> maxBufferSize)"
proof -
  let ?vd = "newVoiceDetection defaultConfig"
  let ?f = "replicate 10485762 (0 :: byte)"
  have bufs: "(buffers (frameState ''alice'' ?f 0 0 ?vd), totalLength (frameState ''alice'' ?f 0 0 ?vd))
      = ([?f], 10485762)"
    unfolding frameState_buffers entryState_new
    by (simp add: initialState_def manageBufferSize_loop.simps [of "[?f]"])
  have idle: "\<not> isSpeaking (frameState ''alice'' ?f 0 0 ?vd)"
    by (simp add: frameState_fields entryState_new initialState_def)
  have cnt: "speechFrameCount (frameState ''alice'' ?f 0 0 ?vd) = 0"
    by (simp add: frameState_fields entryState_new initialState_def newVoiceDetection_def defaultConfig_def)
  have "processAudioFrame ''alice'' ?f 0 ?vd = (None, storeFrame ''alice'' ?f 0 0 ?vd, [])"
    unfolding processAudioFrame_Inr [OF big_frame_rms]
    using idle cnt by (simp add: newVoiceDetection_def defaultConfig_def)
  then show ?thesis using bufs by (simp add: storeFrame_simps maxBufferSize_def)
qed

text \<open>
  Claim C4, amended: when no frame is larger than 10 MiB, then after every call of a run
  that starts from a new detector the participant's \<open>totalLength\<close> is the number of
  bytes buffered and is at most 10 MiB. The loop of \<open>manageBufferSize\<close> evicts from the
  front and only as far as needed: it leaves the list without its \<open>k\<close> oldest buffers
  and the count reduced by their bytes, where the count was above the ceiling after each
  of the evictions before the \<open>k\<close>-th, and it stops once the count is within the ceiling
  or only the newest buffer is left, which is never evicted.
\<close>

theorem buffered_bytes_within_ceiling:
  assumes "list_all frameWithinCeiling inputs"
    and "participantStates (fst (detectorRun p inputs (newVoiceDetection cfg))) p = Some s"
  shows "totalLength s = bufferedBytes (buffers s) \<and> totalLength s \<le> maxBufferSize
    \<and> (\<exists>k. k \<le> length bufs - 1
           \<and> manageBufferSize_loop bufs len = (drop k bufs, len - bufferedBytes (take k bufs))
           \<and> (\<forall>j<k. maxBufferSize < len - bufferedBytes (take j bufs))
           \<and> (len - bufferedBytes (take k bufs) \<le> maxBufferSize \<or> k = length bufs - 1))"
proof -
  have "\<And>s. participantStates (newVoiceDetection cfg) p = Some s \<Longrightarrow> withinCeiling s"
    by (simp add: newVoiceDetection_def)
  from detectorRun_ceiling [OF assms(1) this assms(2)]
  have "totalLength s = bufferedBytes (buffers s) \<and> totalLength s \<le> maxBufferSize"
    by (simp add: withinCeiling_def)
  with manageBufferSize_loop_evicts [of bufs len] show ?thesis by blast
qed

lemma two_big_frames_loop:
  "manageBufferSize_loop [replicate 6291456 0, replicate 6291456 0] 12582912
     = ([replicate 6291456 0], 6291456)"
  by (simp add: manageBufferSize_loop.simps maxBufferSize_def)

lemma six_mib_rms: "calculateRMS (replicate 6291456 0) = Inr 0"
  using calculateRMS_zeros [of 3145728] by simp

lemma two_big_frames_run:
  "participantStates
     (fst (detectorRun ''alice''
             [AudioFrame (replicate 6291456 0) 0, AudioFrame (replicate 6291456 0) 10]
             (newVoiceDetection defaultConfig))) ''alice''
   = Some \<lparr> isSpeaking = False, speechStartTime = 0, speechEndTime = 0,
            buffers = [replicate 6291456 0], totalLength = 6291456, lastActivity = 10,
            speechFrameCount = 0, silenceFrameCount = 2 \<rparr>"
  by (simp add: processAudioFrame_def six_mib_rms newVoiceDetection_def defaultConfig_def
    initializeParticipantState_def initialState_def countFrame_def pushFrame_def
    manageBufferSize_def manageBufferSize_loop.simps maxBufferSize_def Let_def)

theorem buffered_bytes_within_ceiling_witness:
  "list_all frameWithinCeiling
     [AudioFrame (replicate 6291456 0) 0, AudioFrame (replicate 6291456 0) 10]
   \<and> map_option buffers
        (participantStates
           (fst (detectorRun ''alice''
                   [AudioFrame (replicate 6291456 0) 0, AudioFrame (replicate 6291456 0) 10]
                   (newVoiceDetection defaultConfig)))
           ''alice'') = Some [replicate 6291456 0]
   \<and> map_option totalLength
        (participantStates
           (fst (detectorRun ''alice''
                   [AudioFrame (replicate 6291456 0) 0, AudioFrame (replicate 6291456 0) 10]
                   (newVoiceDetection defaultConfig)))
           ''alice'') = Some 6291456
   \<and> (6291456 :: int) \<le> maxBufferSize
   \<and> maxBufferSize < 12582912 - bufferedBytes (take 0 [replicate 6291456 0, replicate 6291456 (0 :: byte)])
   \<and> manageBufferSize_loop [replicate 6291456 0, replicate 6291456 0] 12582912
       = (drop 1 [replicate 6291456 0, replicate 6291456 0],
          12582912 - bufferedBytes (take 1 [replicate 6291456 0, replicate 6291456 0]))
   \<and> manageBufferSize_loop [replicate 6291456 0, replicate 6291456 0] 12582912
       = ([replicate 6291456 0], 6291456)"
proof -
  let ?r = "replicate 6291456 (0 :: byte)"
  have small: "list_all frameWithinCeiling [AudioFrame ?r 0, AudioFrame ?r 10]"
    by (simp add: maxBufferSize_def)
  note bound = buffered_bytes_within_ceiling [OF small two_big_frames_run, of "[?r, ?r]" 12582912]
  then obtain k where k: "k \<le> length [?r, ?r] - 1"
    and loop: "manageBufferSize_loop [?r, ?r] 12582912
                 = (drop k [?r, ?r], 12582912 - bufferedBytes (take k [?r, ?r]))"
    and above: "\<forall>j<k. maxBufferSize < 12582912 - bufferedBytes (take j [?r, ?r])"
    by auto
  have "k \<noteq> 0"
  proof
    assume "k = 0"
    with loop two_big_frames_loop show False by simp
  qed
  with k have k1: "k = 1" by simp
  from bound have le: "(6291456 :: int) \<le> maxBufferSize" by simp
  from above k1 have first: "maxBufferSize < 12582912 - bufferedBytes (take 0 [?r, ?r])" by simp
  show ?thesis
    using small le first loop [unfolded k1] two_big_frames_loop
    unfolding two_big_frames_run by simp
qed

section \<open>Claim C5: the start of a turn\<close>














section \<open>Claim C2: bounds on the reported duration\<close>

text \<open>
  Claim C2, as stated: every emitted \<open>speechTurn\<close> reports a duration \<open>d\<close> with
  \<open>minSpeechDuration \<le> d \<le> maxSpeechDuration + debounceThreshold\<close>. The upper bound
  fails: the elapsed time is compared with \<open>maxSpeechDuration\<close> only when a frame is
  processed, and the duration is read from the clock at that moment. With the default
  configuration (maximum 10000 ms, debounce 1500 ms), a turn that starts at 20 ms and whose
  next frame arrives at 12000 ms is finalized with a duration of 11980 ms.
\<close>

theorem turn_longer_than_max_plus_debounce:
  "snd (detectorRun ''alice''
          (frames [(loudFrame, 0), (loudFrame, 10), (loudFrame, 20), (zeroFrame 1024, 12000)])
          (newVoiceDetection defaultConfig))
   = [SpeechStarted ''alice'', SpeechEnded ''alice'' (zeroFrame 1024),
      SpeechTurn ''alice'' (zeroFrame 1024) 11980]
   \<and> \<not> (11980 \<le> maxSpeechDuration defaultConfig + debounceThreshold defaultConfig)"
  by (simp add: turn_cut_after_gap) (simp add: defaultConfig_def)

text \<open>
  Claim C2, amended: every \<open>speechTurn\<close> emitted in a run of frames and timers reports a
  duration of at least \<open>minSpeechDuration\<close>; \<open>processSpeechTurn\<close> called on a turn whose
  duration is below \<open>minSpeechDuration\<close> resets the participant and emits nothing; and a
  frame processed in a turn more than \<open>maxSpeechDuration\<close> after its start, and which
  does not complete the required run of silence frames, finalizes the turn in that call:
  the participant is left idle with empty buffers, and a \<open>speechTurn\<close> emitted there
  reports the time from the start of the turn to that frame, which exceeds
  \<open>maxSpeechDuration\<close>.
\<close>

theorem speechTurn_duration_bounds:
  "(SpeechTurn q buf d \<in> set (snd (detectorRun p xs vd)) \<longrightarrow> minSpeechDuration (config vd) \<le> d)
   \<and> (now - speechStartTime (entryState vd p now) < minSpeechDuration (config vd) \<longrightarrow>
        processSpeechTurn p now vd = (resetParticipantState p vd, []))
   \<and> (inTurn vd p t0 k \<and> calculateRMS b = Inr rms \<and> maxSpeechDuration (config vd) < t - t0
        \<and> int (Suc k) < silenceFramesRequired (config vd) \<longrightarrow>
        processAudioFrame p b t vd = (None, processSpeechTurn p t (storeFrame p b t rms vd))
        \<and> map_option isSpeaking (participantStates (fst (snd (processAudioFrame p b t vd))) p)
            = Some False
        \<and> map_option buffers (participantStates (fst (snd (processAudioFrame p b t vd))) p)
            = Some []
        \<and> (\<forall>q' buf' d'. SpeechTurn q' buf' d' \<in> set (snd (snd (processAudioFrame p b t vd))) \<longrightarrow>
              d' = t - t0 \<and> maxSpeechDuration (config vd) < d'))"
proof (intro conjI impI)
  assume "SpeechTurn q buf d \<in> set (snd (detectorRun p xs vd))"
  then show "minSpeechDuration (config vd) \<le> d" by (rule detectorRun_SpeechTurn)
next
  assume "now - speechStartTime (entryState vd p now) < minSpeechDuration (config vd)"
  then show "processSpeechTurn p now vd = (resetParticipantState p vd, [])"
    by (auto simp: processSpeechTurn_eq turnEvents_def entryState_def split: option.splits)
next
  assume h: "inTurn vd p t0 k \<and> calculateRMS b = Inr rms \<and> maxSpeechDuration (config vd) < t - t0
        \<and> int (Suc k) < silenceFramesRequired (config vd)"
  note e = inTurn_entry [of vd p t0 k t]
  have cnt: "int (silenceFrameCount (frameState p b t rms vd)) < silenceFramesRequired (config vd)"
    using h e by (simp add: frameState_fields)
  note cut = frame_after_max_duration [of b rms vd p t0 k t]
  show "processAudioFrame p b t vd = (None, processSpeechTurn p t (storeFrame p b t rms vd))"
    using h cnt cut(1) by blast
  have post: "participantStates (fst (snd (processAudioFrame p b t vd))) p
           = Some (resetState (frameState p b t rms vd))"
    using h cnt cut(3) by blast
  show "map_option isSpeaking (participantStates (fst (snd (processAudioFrame p b t vd))) p)
            = Some False"
    by (simp add: post resetState_def)
  show "map_option buffers (participantStates (fst (snd (processAudioFrame p b t vd))) p)
            = Some []"
    by (simp add: post resetState_def)
  have ev: "snd (snd (processAudioFrame p b t vd)) = turnEvents (config vd) p t (frameState p b t rms vd)"
    using h cnt cut(2) by blast
  have st: "speechStartTime (frameState p b t rms vd) = t0"
    using h e by (simp add: frameState_fields)
  show "\<forall>q' buf' d'. SpeechTurn q' buf' d' \<in> set (snd (snd (processAudioFrame p b t vd))) \<longrightarrow>
              d' = t - t0 \<and> maxSpeechDuration (config vd) < d'"
    using h turnEvents_SpeechTurn [of _ _ _ "config vd" p t "frameState p b t rms vd"]
    by (auto simp: ev st)
qed

lemma three_loud_frames_start:
  "inTurn (fst (detectorRun ''alice'' (frames [(loudFrame, 0), (loudFrame, 10), (loudFrame, 20)])
                 (newVoiceDetection cfg))) ''alice'' 20 0"
  "holding (fst (detectorRun ''alice'' (frames [(loudFrame, 0), (loudFrame, 10), (loudFrame, 20)])
                 (newVoiceDetection cfg))) ''alice'' []"
  "processingFlags (fst (detectorRun ''alice'' (frames [(loudFrame, 0), (loudFrame, 10), (loudFrame, 20)])
                 (newVoiceDetection cfg))) ''alice'' \<noteq> Some True"
  if "speechFramesRequired cfg = 3" and "speechThreshold cfg < 1"
proof -
  let ?vd = "newVoiceDetection cfg"
  have cfg: "config ?vd = cfg" by (simp add: newVoiceDetection_def)
  have loud: "speechFrame (config ?vd) loudFrame"
    unfolding cfg using that(2) by (rule loudFrame_speech)
  have three: "speechFramesRequired (config ?vd) = 3" unfolding cfg by (rule that(1))
  have idle: "\<not> isSpeaking (entryState ?vd ''alice'' 0)"
    and none: "speechFrameCount (entryState ?vd ''alice'' 0) = 0"
    by (simp_all add: entryState_new initialState_def)
  have flag: "processingFlags ?vd ''alice'' \<noteq> Some True" by (simp add: newVoiceDetection_def)
  note start = turn_starts_on_third_frame(4,5,7) [OF three idle none flag loud loud loud,
      where ?t2.0 = 10 and ?t3.0 = 20]
  show "inTurn (fst (detectorRun ''alice'' (frames [(loudFrame, 0), (loudFrame, 10), (loudFrame, 20)])
                 (newVoiceDetection cfg))) ''alice'' 20 0" by (rule start(1))
  show "holding (fst (detectorRun ''alice'' (frames [(loudFrame, 0), (loudFrame, 10), (loudFrame, 20)])
                 (newVoiceDetection cfg))) ''alice'' []" by (rule start(2))
  show "processingFlags (fst (detectorRun ''alice'' (frames [(loudFrame, 0), (loudFrame, 10), (loudFrame, 20)])
                 (newVoiceDetection cfg))) ''alice'' \<noteq> Some True" by (rule start(3))
qed

theorem speechTurn_duration_bounds_witness:
  "SpeechTurn ''alice'' (zeroFrame 1024) 11980
     \<in> set (snd (detectorRun ''alice''
          (frames [(loudFrame, 0), (loudFrame, 10), (loudFrame, 20), (zeroFrame 1024, 12000)])
          (newVoiceDetection defaultConfig)))
   \<and> minSpeechDuration (config (newVoiceDetection defaultConfig)) \<le> 11980
   \<and> 100 - speechStartTime (entryState (newVoiceDetection defaultConfig) ''alice'' 100)
        < minSpeechDuration (config (newVoiceDetection defaultConfig))
   \<and> processSpeechTurn ''alice'' 100 (newVoiceDetection defaultConfig)
        = (resetParticipantState ''alice'' (newVoiceDetection defaultConfig), [])
   \<and> inTurn (fst (detectorRun ''alice'' (frames [(loudFrame, 0), (loudFrame, 10), (loudFrame, 20)])
                 (newVoiceDetection defaultConfig))) ''alice'' 20 0
   \<and> calculateRMS (zeroFrame 1024) = Inr 0
   \<and> map_option isSpeaking
        (participantStates
           (fst (snd (processAudioFrame ''alice'' (zeroFrame 1024) 12000
              (fst (detectorRun ''alice'' (frames [(loudFrame, 0), (loudFrame, 10), (loudFrame, 20)])
                 (newVoiceDetection defaultConfig)))))) ''alice'') = Some False"
proof -
  let ?vd = "newVoiceDetection defaultConfig"
  let ?vd3 = "fst (detectorRun ''alice'' (frames [(loudFrame, 0), (loudFrame, 10), (loudFrame, 20)]) ?vd)"
  have ev: "SpeechTurn ''alice'' (zeroFrame 1024) 11980
     \<in> set (snd (detectorRun ''alice''
          (frames [(loudFrame, 0), (loudFrame, 10), (loudFrame, 20), (zeroFrame 1024, 12000)]) ?vd))"
    by (simp add: turn_cut_after_gap)
  have short: "100 - speechStartTime (entryState ?vd ''alice'' 100) < minSpeechDuration (config ?vd)"
    unfolding entryState_new by (simp add: initialState_def newVoiceDetection_def defaultConfig_def)
  have turn: "inTurn ?vd3 ''alice'' 20 0"
    by (rule three_loud_frames_start) (simp_all add: defaultConfig_def)
  have cfg3: "config ?vd3 = defaultConfig"
    by (simp add: detectorRun_config newVoiceDetection_def)
  have late: "maxSpeechDuration (config ?vd3) < 12000 - 20"
    and cnt: "int (Suc 0) < silenceFramesRequired (config ?vd3)"
    unfolding cfg3 by (simp_all add: defaultConfig_def)
  note rms = calculateRMS_zeroFrame [of 1024]
  note a = speechTurn_duration_bounds
    [of "''alice''" "zeroFrame 1024" 11980 "''alice''"
        "frames [(loudFrame, 0), (loudFrame, 10), (loudFrame, 20), (zeroFrame 1024, 12000)]" ?vd
        100 20 0 "zeroFrame 1024" 0 12000]
  note b = speechTurn_duration_bounds
    [of "''alice''" "zeroFrame 1024" 11980 "''alice''" "[]" ?vd3 100 20 0 "zeroFrame 1024" 0 12000]
  from a ev have one: "minSpeechDuration (config ?vd) \<le> 11980" by blast
  from a short have two: "processSpeechTurn ''alice'' 100 ?vd = (resetParticipantState ''alice'' ?vd, [])"
    by blast
  from b turn rms late cnt
  have three: "map_option isSpeaking
        (participantStates (fst (snd (processAudioFrame ''alice'' (zeroFrame 1024) 12000 ?vd3))) ''alice'')
      = Some False" by blast
  from ev one short two turn rms three show ?thesis by blast
qed

section \<open>Claim C3: a turn ended by silence and debounce\<close>



section \<open>How the monitor's operations act\<close>

lemma onDetectorEvent_simps:
  "volumeBuffers (fst (onDetectorEvent e now am)) = volumeBuffers am"
  "monitorConfig (fst (onDetectorEvent e now am)) = monitorConfig am"
  "voiceDetection (fst (onDetectorEvent e now am)) = voiceDetection am"
  "isMonitoring (fst (onDetectorEvent e now am)) = isMonitoring am"
  "dom (monitorStates (fst (onDetectorEvent e now am))) = dom (monitorStates am)"
  by (cases e; auto simp: handleSpeechStarted_def handleSpeechEnded_def split: option.splits)+

lemma onDetectorEvent_events:
  "x \<in> set (snd (onDetectorEvent e now am)) \<Longrightarrow>
     (\<exists>b. x = SpeakingStopped (eventParticipant e) b) \<or> x = SpeakingStarted (eventParticipant e)"
  by (cases e) (auto simp: handleSpeechStarted_def handleSpeechEnded_def split: option.splits if_splits)

lemma dispatch_Cons:
  "dispatch (e # es) now am =
     (fst (dispatch es now (fst (onDetectorEvent e now am))),
      e # snd (onDetectorEvent e now am) @ snd (dispatch es now (fst (onDetectorEvent e now am))))"
  by (simp split: prod.splits)

lemma dispatch_simps:
  "volumeBuffers (fst (dispatch es now am)) = volumeBuffers am"
  "monitorConfig (fst (dispatch es now am)) = monitorConfig am"
  "voiceDetection (fst (dispatch es now am)) = voiceDetection am"
  "isMonitoring (fst (dispatch es now am)) = isMonitoring am"
  "dom (monitorStates (fst (dispatch es now am))) = dom (monitorStates am)"
  by (induction es arbitrary: am; simp add: dispatch_Cons onDetectorEvent_simps del: dispatch.simps(2))+

lemma dispatch_events:
  "x \<in> set (snd (dispatch es now am)) \<Longrightarrow>
     x \<in> set es \<or> (\<exists>e\<in>set es. (\<exists>b. x = SpeakingStopped (eventParticipant e) b)
                               \<or> x = SpeakingStarted (eventParticipant e))"
proof (induction es arbitrary: am)
  case Nil
  then show ?case by simp
next
  case (Cons e es)
  from Cons.prems have "x = e \<or> x \<in> set (snd (onDetectorEvent e now am))
      \<or> x \<in> set (snd (dispatch es now (fst (onDetectorEvent e now am))))"
    by (auto simp: dispatch_Cons simp del: dispatch.simps(2))
  then show ?case
    using onDetectorEvent_events [of x e now am] Cons.IH [of "fst (onDetectorEvent e now am)"]
    by auto
qed

text \<open>The detector emits only its own three kinds of event, all for the participant at hand.\<close>

lemma turnEvents_kinds:
  "x \<in> set (turnEvents cfg p now s) \<Longrightarrow> (\<exists>b. x = SpeechEnded p b) \<or> (\<exists>b d. x = SpeechTurn p b d)"
  by (auto simp: turnEvents_def split: if_splits)

lemma processAudioFrame_kinds:
  assumes "x \<in> set (snd (snd (processAudioFrame p b t vd)))"
  shows "x = SpeechStarted p \<or> (\<exists>b. x = SpeechEnded p b) \<or> (\<exists>b d. x = SpeechTurn p b d)"
proof (cases "calculateRMS b")
  case (Inl e)
  with assms show ?thesis by (simp add: processAudioFrame_Inl)
next
  case (Inr rms)
  from assms show ?thesis
    unfolding processAudioFrame_Inr [OF Inr]
    using handleSpeechStart_events [of p t "storeFrame p b t rms vd"]
      turnEvents_kinds [of x "config vd" p t "frameState p b t rms vd"]
    by (auto simp: processSpeechTurn_eq storeFrame_simps split: if_splits)
qed

lemma fireTimer_kinds:
  assumes "x \<in> set (snd (fireTimer p f vd))"
  shows "(\<exists>b. x = SpeechEnded p b) \<or> (\<exists>b d. x = SpeechTurn p b d)"
  using assms turnEvents_kinds [of x "config vd" p f]
  by (auto simp: fireTimer_def debounceCallback_simps split: option.splits if_splits)

lemma updateVolumeBuffer_simps:
  "volumeBuffers (updateVolumeBuffer p v am) = (volumeBuffers am)(p \<mapsto> windowAfterPush am p v)"
  "monitorConfig (updateVolumeBuffer p v am) = monitorConfig am"
  "voiceDetection (updateVolumeBuffer p v am) = voiceDetection am"
  "monitorStates (updateVolumeBuffer p v am) = monitorStates am"
  "isMonitoring (updateVolumeBuffer p v am) = isMonitoring am"
  by (simp_all add: updateVolumeBuffer_def windowAfterPush_def Let_def)

lemma checkForInterruption_simps:
  "monitorConfig (fst (checkForInterruption p v am)) = monitorConfig am"
  "voiceDetection (fst (checkForInterruption p v am)) = voiceDetection am"
  "monitorStates (fst (checkForInterruption p v am)) = monitorStates am"
  "isMonitoring (fst (checkForInterruption p v am)) = isMonitoring am"
  by (simp_all add: checkForInterruption_def Let_def split: option.splits)

lemma windowMean_empty: "\<not> number_greater (windowMean []) t"
  by (simp add: windowMean_def)

lemma checkForInterruption_emits:
  assumes "volumeBuffers am p = Some w"
  shows "checkForInterruption p v am =
     (if volumeWindowSize (monitorConfig am) \<le> int (length w) \<and> w \<noteq> []
         \<and> number_greater (windowMean w) (Finite (speakingThreshold (monitorConfig am)))
      then (am\<lparr> volumeBuffers := (volumeBuffers am)(p \<mapsto> []) \<rparr>, [InterruptionDetected p])
      else (am, []))"
proof (cases "w = []")
  case True
  with assms windowMean_empty [of "Finite (speakingThreshold (monitorConfig am))"] show ?thesis
    by (simp add: checkForInterruption_def Let_def windowMean_def)
next
  case False
  with assms show ?thesis
    by (simp add: checkForInterruption_def Let_def windowMean_def not_less)
qed

text \<open>A frame of a monitored participant whose volume can be computed.\<close>

lemma monitorProcessAudioFrame_Inr:
  assumes "isMonitoring am" and "monitorStates am p = Some st" and "calculateVolume buf = Inr v"
  shows "\<exists>out. snd (snd (monitorProcessAudioFrame p buf now am)) =
           snd (checkForInterruption p v (updateVolumeBuffer p v
                  (am\<lparr> monitorStates := (monitorStates am)(p \<mapsto> st\<lparr> monitorLastActivity := now \<rparr>) \<rparr>)))
           @ out
         \<and> (\<forall>x\<in>set out. \<forall>q. x \<noteq> InterruptionDetected q)"
    and "volumeBuffers (fst (snd (monitorProcessAudioFrame p buf now am))) =
           volumeBuffers (fst (checkForInterruption p v (updateVolumeBuffer p v
                  (am\<lparr> monitorStates := (monitorStates am)(p \<mapsto> st\<lparr> monitorLastActivity := now \<rparr>) \<rparr>))))"
    and "monitorConfig (fst (snd (monitorProcessAudioFrame p buf now am))) = monitorConfig am"
proof -
  let ?am1 = "am\<lparr> monitorStates := (monitorStates am)(p \<mapsto> st\<lparr> monitorLastActivity := now \<rparr>) \<rparr>"
  let ?c = "checkForInterruption p v (updateVolumeBuffer p v ?am1)"
  let ?r = "processAudioFrame p buf now (voiceDetection (fst ?c))"
  let ?d = "dispatch (snd (snd ?r)) now ((fst ?c)\<lparr> voiceDetection := fst (snd ?r) \<rparr>)"
  have eq: "monitorProcessAudioFrame p buf now am =
      (fst ?r, fst ?d, snd ?c @ snd ?d @ (if fst ?r = None then [VolumeDetected p v] else []))"
    using assms
    by (simp add: monitorProcessAudioFrame_def Let_def split: prod.splits option.splits)
  have clean: "\<forall>x\<in>set (snd ?d @ (if fst ?r = None then [VolumeDetected p v] else [])). \<forall>q. x \<noteq> InterruptionDetected q"
  proof (intro ballI allI)
    fix x q assume x: "x \<in> set (snd ?d @ (if fst ?r = None then [VolumeDetected p v] else []))"
    show "x \<noteq> InterruptionDetected q"
    proof
      assume i: "x = InterruptionDetected q"
      with x have "InterruptionDetected q \<in> set (snd ?d)" by (auto split: if_splits)
      from dispatch_events [OF this] have "InterruptionDetected q \<in> set (snd (snd ?r))" by auto
      from processAudioFrame_kinds [OF this] show False by auto
    qed
  qed
  show "\<exists>out. snd (snd (monitorProcessAudioFrame p buf now am)) = snd ?c @ out
         \<and> (\<forall>x\<in>set out. \<forall>q. x \<noteq> InterruptionDetected q)"
    unfolding eq using clean by (intro exI [of _ "snd ?d @ (if fst ?r = None then [VolumeDetected p v] else [])"]) simp
  show "volumeBuffers (fst (snd (monitorProcessAudioFrame p buf now am))) = volumeBuffers (fst ?c)"
    unfolding eq by (simp add: dispatch_simps)
  show "monitorConfig (fst (snd (monitorProcessAudioFrame p buf now am))) = monitorConfig am"
    unfolding eq by (simp add: dispatch_simps checkForInterruption_simps updateVolumeBuffer_simps)
qed

text \<open>A frame that the monitor ignores, or whose volume cannot be computed.\<close>

lemma monitorProcessAudioFrame_other:
  assumes "\<not> isMonitoring am \<or> monitorStates am p = None \<or> (\<exists>e. calculateVolume buf = Inl e)"
  shows "snd (snd (monitorProcessAudioFrame p buf now am)) = []"
    and "volumeBuffers (fst (snd (monitorProcessAudioFrame p buf now am))) = volumeBuffers am"
    and "monitorConfig (fst (snd (monitorProcessAudioFrame p buf now am))) = monitorConfig am"
    and "voiceDetection (fst (snd (monitorProcessAudioFrame p buf now am))) = voiceDetection am"
  using assms
  by (auto simp: monitorProcessAudioFrame_def Let_def split: option.splits)

lemma windowAfterPush_cong:
  "volumeBuffers a = volumeBuffers b \<Longrightarrow> monitorConfig a = monitorConfig b \<Longrightarrow>
     windowAfterPush a p v = windowAfterPush b p v"
  by (simp add: windowAfterPush_def)

lemma windowAfterPush_length:
  "length (windowAfterPush am p v) \<le> windowLength am p + 1"
  by (auto simp: windowAfterPush_def windowLength_def Let_def split: option.splits)

lemma windowAfterPush_bounded:
  assumes "int (windowLength am p) \<le> max 0 (volumeWindowSize (monitorConfig am))"
  shows "int (length (windowAfterPush am p v)) \<le> max 0 (volumeWindowSize (monitorConfig am))"
  using assms
  by (auto simp: windowAfterPush_def windowLength_def Let_def split: option.splits)

text \<open>What one frame does to the windows and when it reports an interruption.\<close>

lemma monitor_frame_interruption:
  assumes "InterruptionDetected q \<in> set (snd (snd (monitorProcessAudioFrame p buf now am)))"
  shows "q = p"
    and "volumeWindowSize (monitorConfig am) \<le> int (length (windowAfterPush am p (volumeOf buf)))"
    and "windowAfterPush am p (volumeOf buf) \<noteq> []"
    and "number_greater (windowMean (windowAfterPush am p (volumeOf buf)))
           (Finite (speakingThreshold (monitorConfig am)))"
    and "volumeBuffers (fst (snd (monitorProcessAudioFrame p buf now am))) p = Some []"
proof -
  have nonempty: "snd (snd (monitorProcessAudioFrame p buf now am)) \<noteq> []"
    using assms by auto
  have "\<not> (\<not> isMonitoring am \<or> monitorStates am p = None \<or> (\<exists>e. calculateVolume buf = Inl e))"
  proof
    assume "\<not> isMonitoring am \<or> monitorStates am p = None \<or> (\<exists>e. calculateVolume buf = Inl e)"
    from monitorProcessAudioFrame_other(1) [OF this, of now] nonempty show False by simp
  qed
  then have live: "isMonitoring am" "monitorStates am p \<noteq> None" "\<not> (\<exists>e. calculateVolume buf = Inl e)"
    by simp_all
  then obtain st v where st: "monitorStates am p = Some st" and v: "calculateVolume buf = Inr v"
    by (cases "calculateVolume buf") auto
  have vo: "volumeOf buf = v" using v by (simp add: volumeOf_def)
  let ?am1 = "am\<lparr> monitorStates := (monitorStates am)(p \<mapsto> st\<lparr> monitorLastActivity := now \<rparr>) \<rparr>"
  let ?am2 = "updateVolumeBuffer p v ?am1"
  let ?w = "windowAfterPush am p v"
  have w1: "windowAfterPush ?am1 p v = ?w" by (rule windowAfterPush_cong) simp_all
  have vb2: "volumeBuffers ?am2 p = Some ?w" by (simp add: updateVolumeBuffer_simps w1)
  have cfg2: "monitorConfig ?am2 = monitorConfig am" by (simp add: updateVolumeBuffer_simps)
  note c = checkForInterruption_emits [OF vb2, of v]
  from monitorProcessAudioFrame_Inr(1) [OF live(1) st v, of now] obtain out where
    ev: "snd (snd (monitorProcessAudioFrame p buf now am)) = snd (checkForInterruption p v ?am2) @ out"
    and clean: "\<forall>x\<in>set out. \<forall>q. x \<noteq> InterruptionDetected q" by blast
  from assms ev clean have inC: "InterruptionDetected q \<in> set (snd (checkForInterruption p v ?am2))"
    by auto
  then have cond: "volumeWindowSize (monitorConfig am) \<le> int (length ?w) \<and> ?w \<noteq> []
         \<and> number_greater (windowMean ?w) (Finite (speakingThreshold (monitorConfig am)))"
    unfolding c cfg2 by (auto split: if_splits)
  from inC show "q = p" unfolding c by (auto split: if_splits)
  from cond show "volumeWindowSize (monitorConfig am) \<le> int (length (windowAfterPush am p (volumeOf buf)))"
    and "windowAfterPush am p (volumeOf buf) \<noteq> []"
    and "number_greater (windowMean (windowAfterPush am p (volumeOf buf)))
           (Finite (speakingThreshold (monitorConfig am)))"
    by (simp_all add: vo)
  show "volumeBuffers (fst (snd (monitorProcessAudioFrame p buf now am))) p = Some []"
    unfolding monitorProcessAudioFrame_Inr(2) [OF live(1) st v] c cfg2
    using cond by simp
qed

lemma monitor_frame_windows:
  "q \<noteq> p \<Longrightarrow> volumeBuffers (fst (snd (monitorProcessAudioFrame p buf now am))) q = volumeBuffers am q"
  "windowLength (fst (snd (monitorProcessAudioFrame p buf now am))) p \<le> windowLength am p + 1"
  "int (windowLength am p) \<le> max 0 (volumeWindowSize (monitorConfig am)) \<Longrightarrow>
     int (windowLength (fst (snd (monitorProcessAudioFrame p buf now am))) p)
       \<le> max 0 (volumeWindowSize (monitorConfig am))"
  "monitorConfig (fst (snd (monitorProcessAudioFrame p buf now am))) = monitorConfig am"
proof -
  consider (other) "\<not> isMonitoring am \<or> monitorStates am p = None \<or> (\<exists>e. calculateVolume buf = Inl e)"
    | (live) st v where "isMonitoring am" "monitorStates am p = Some st" "calculateVolume buf = Inr v"
    by (cases "calculateVolume buf"; cases "monitorStates am p") auto
  then have "(q \<noteq> p \<longrightarrow> volumeBuffers (fst (snd (monitorProcessAudioFrame p buf now am))) q = volumeBuffers am q)
     \<and> windowLength (fst (snd (monitorProcessAudioFrame p buf now am))) p \<le> windowLength am p + 1
     \<and> (int (windowLength am p) \<le> max 0 (volumeWindowSize (monitorConfig am)) \<longrightarrow>
          int (windowLength (fst (snd (monitorProcessAudioFrame p buf now am))) p)
            \<le> max 0 (volumeWindowSize (monitorConfig am)))
     \<and> monitorConfig (fst (snd (monitorProcessAudioFrame p buf now am))) = monitorConfig am"
  proof cases
    case other
    note o = monitorProcessAudioFrame_other [OF other, of now]
    show ?thesis by (simp add: o windowLength_def)
  next
    case live
    let ?am1 = "am\<lparr> monitorStates := (monitorStates am)(p \<mapsto> st\<lparr> monitorLastActivity := now \<rparr>) \<rparr>"
    let ?am2 = "updateVolumeBuffer p v ?am1"
    let ?w = "windowAfterPush am p v"
    have w1: "windowAfterPush ?am1 p v = ?w" by (rule windowAfterPush_cong) simp_all
    have vb2: "volumeBuffers ?am2 = (volumeBuffers am)(p \<mapsto> ?w)"
      by (simp add: updateVolumeBuffer_simps w1)
    then have vb2p: "volumeBuffers ?am2 p = Some ?w" by simp
    note c = checkForInterruption_emits [OF vb2p, of v]
    note m = monitorProcessAudioFrame_Inr(2,3) [OF live, of now]
    have post: "volumeBuffers (fst (snd (monitorProcessAudioFrame p buf now am))) = (volumeBuffers am)(p \<mapsto> ?w)
        \<or> volumeBuffers (fst (snd (monitorProcessAudioFrame p buf now am))) = (volumeBuffers am)(p \<mapsto> [])"
      unfolding m(1) c by (simp add: vb2)
    have len: "windowLength (fst (snd (monitorProcessAudioFrame p buf now am))) p \<le> length ?w"
      using post by (auto simp: windowLength_def)
    show ?thesis
      using post len windowAfterPush_length [of am p v] windowAfterPush_bounded [of am p v] m(2)
      by auto
  qed
  then show "q \<noteq> p \<Longrightarrow> volumeBuffers (fst (snd (monitorProcessAudioFrame p buf now am))) q = volumeBuffers am q"
    and "windowLength (fst (snd (monitorProcessAudioFrame p buf now am))) p \<le> windowLength am p + 1"
    and "int (windowLength am p) \<le> max 0 (volumeWindowSize (monitorConfig am)) \<Longrightarrow>
     int (windowLength (fst (snd (monitorProcessAudioFrame p buf now am))) p)
       \<le> max 0 (volumeWindowSize (monitorConfig am))"
    and "monitorConfig (fst (snd (monitorProcessAudioFrame p buf now am))) = monitorConfig am"
    by simp_all
qed

lemma handleSpeechStart_other:
  "q \<noteq> p \<Longrightarrow> participantStates (fst (handleSpeechStart p now vd)) q = participantStates vd q"
  "q \<noteq> p \<Longrightarrow> debounceTimers (fst (handleSpeechStart p now vd)) q = debounceTimers vd q"
  by (simp_all add: handleSpeechStart_def split: option.splits)

lemma handlePotentialSpeechEnd_other:
  "q \<noteq> p \<Longrightarrow> participantStates (handlePotentialSpeechEnd p now vd) q = participantStates vd q"
  "q \<noteq> p \<Longrightarrow> debounceTimers (handlePotentialSpeechEnd p now vd) q = debounceTimers vd q"
  by (simp_all add: handlePotentialSpeechEnd_def setupDebouncedProcessing_def Let_def
      resetParticipantState_def split: option.splits)

lemma resetParticipantState_other:
  "q \<noteq> p \<Longrightarrow> participantStates (resetParticipantState p vd) q = participantStates vd q"
  by (simp add: resetParticipantState_def split: option.splits)

lemma processAudioFrame_other:
  assumes "q \<noteq> p"
  shows "participantStates (fst (snd (processAudioFrame p b t vd))) q = participantStates vd q"
    and "debounceTimers (fst (snd (processAudioFrame p b t vd))) q = debounceTimers vd q"
proof -
  have "participantStates (fst (snd (processAudioFrame p b t vd))) q = participantStates vd q
      \<and> debounceTimers (fst (snd (processAudioFrame p b t vd))) q = debounceTimers vd q"
  proof (cases "calculateRMS b")
    case (Inl e)
    then show ?thesis using assms by (simp add: processAudioFrame_Inl ensureState_simps)
  next
    case (Inr rms)
    show ?thesis
      unfolding processAudioFrame_Inr [OF Inr]
      using assms
      by (simp add: handleSpeechStart_other handlePotentialSpeechEnd_other processSpeechTurn_eq
          resetParticipantState_other resetParticipantState_simps storeFrame_simps)
  qed
  then show "participantStates (fst (snd (processAudioFrame p b t vd))) q = participantStates vd q"
    and "debounceTimers (fst (snd (processAudioFrame p b t vd))) q = debounceTimers vd q"
    by simp_all
qed

lemma fireTimer_other:
  assumes "q \<noteq> p"
  shows "participantStates (fst (fireTimer p f vd)) q = participantStates vd q"
    and "debounceTimers (fst (fireTimer p f vd)) q = debounceTimers vd q"
  using assms
  by (simp_all add: fireTimer_def debounceCallback_simps resetParticipantState_other
      split: option.splits)

lemma fireTimer_no_timer: "debounceTimers vd p = None \<Longrightarrow> fireTimer p f vd = (vd, [])"
  by (simp add: fireTimer_def)

lemma onDetectorEvent_other:
  "q \<noteq> eventParticipant e \<Longrightarrow> monitorStates (fst (onDetectorEvent e now am)) q = monitorStates am q"
  by (cases e) (simp_all add: handleSpeechStarted_def handleSpeechEnded_def split: option.splits)

lemma dispatch_other:
  "\<forall>e\<in>set es. eventParticipant e \<noteq> q \<Longrightarrow>
     monitorStates (fst (dispatch es now am)) q = monitorStates am q"
proof (induction es arbitrary: am)
  case Nil
  then show ?case by simp
next
  case (Cons e es)
  then show ?case
    using onDetectorEvent_other [of q e now am]
    by (auto simp: dispatch_Cons simp del: dispatch.simps(2))
qed

lemma dispatch_participants:
  assumes "\<forall>e\<in>set es. eventParticipant e = p" and "x \<in> set (snd (dispatch es now am))"
  shows "eventParticipant x = p"
  using dispatch_events [OF assms(2)] assms(1) by auto

lemma processAudioFrame_participants:
  "x \<in> set (snd (snd (processAudioFrame p b t vd))) \<Longrightarrow> eventParticipant x = p"
  using processAudioFrame_kinds [of x p b t vd] by auto

lemma fireTimer_participants:
  "x \<in> set (snd (fireTimer p f vd)) \<Longrightarrow> eventParticipant x = p"
  using fireTimer_kinds [of x p f vd] by auto

lemma monitorProcessAudioFrame_live:
  assumes "isMonitoring am" and "monitorStates am p = Some st" and "calculateVolume buf = Inr v"
  shows "monitorProcessAudioFrame p buf now am =
     (let c = checkForInterruption p v (updateVolumeBuffer p v
                (am\<lparr> monitorStates := (monitorStates am)(p \<mapsto> st\<lparr> monitorLastActivity := now \<rparr>) \<rparr>));
          r = processAudioFrame p buf now (voiceDetection (fst c));
          d = dispatch (snd (snd r)) now ((fst c)\<lparr> voiceDetection := fst (snd r) \<rparr>)
      in (fst r, fst d, snd c @ snd d @ (if fst r = None then [VolumeDetected p v] else [])))"
  using assms
  by (simp add: monitorProcessAudioFrame_def Let_def split: prod.splits option.splits)

lemma checkForInterruption_events:
  "x \<in> set (snd (checkForInterruption p v am)) \<Longrightarrow> x = InterruptionDetected p"
  by (auto simp: checkForInterruption_def Let_def split: option.splits if_splits)

lemma monitor_frame_participants:
  assumes "x \<in> set (snd (snd (monitorProcessAudioFrame p buf now am)))"
  shows "eventParticipant x = p"
proof -
  have nonempty: "snd (snd (monitorProcessAudioFrame p buf now am)) \<noteq> []"
    using assms by auto
  have "\<not> (\<not> isMonitoring am \<or> monitorStates am p = None \<or> (\<exists>e. calculateVolume buf = Inl e))"
  proof
    assume "\<not> isMonitoring am \<or> monitorStates am p = None \<or> (\<exists>e. calculateVolume buf = Inl e)"
    from monitorProcessAudioFrame_other(1) [OF this, of now] nonempty show False by simp
  qed
  then have live: "isMonitoring am" "monitorStates am p \<noteq> None" "\<not> (\<exists>e. calculateVolume buf = Inl e)"
    by simp_all
  then obtain st v where st: "monitorStates am p = Some st" and v: "calculateVolume buf = Inr v"
    by (cases "calculateVolume buf") auto
  let ?c = "checkForInterruption p v (updateVolumeBuffer p v
                (am\<lparr> monitorStates := (monitorStates am)(p \<mapsto> st\<lparr> monitorLastActivity := now \<rparr>) \<rparr>))"
  let ?r = "processAudioFrame p buf now (voiceDetection (fst ?c))"
  let ?d = "dispatch (snd (snd ?r)) now ((fst ?c)\<lparr> voiceDetection := fst (snd ?r) \<rparr>)"
  from assms have "x \<in> set (snd ?c) \<or> x \<in> set (snd ?d) \<or> x = VolumeDetected p v"
    unfolding monitorProcessAudioFrame_live [OF live(1) st v] by (auto simp: Let_def split: if_splits)
  then consider (c) "x \<in> set (snd ?c)" | (d) "x \<in> set (snd ?d)" | (v) "x = VolumeDetected p v"
    by blast
  then show ?thesis
  proof cases
    case c
    from checkForInterruption_events [OF this] show ?thesis by simp
  next
    case d
    have "\<forall>e\<in>set (snd (snd ?r)). eventParticipant e = p"
      using processAudioFrame_participants by blast
    from dispatch_participants [OF this d] show ?thesis .
  next
    case v
    then show ?thesis by simp
  qed
qed

lemma monitor_frame_detector:
  "voiceDetection (fst (snd (monitorProcessAudioFrame p buf now am))) = voiceDetection am
     \<or> voiceDetection (fst (snd (monitorProcessAudioFrame p buf now am)))
         = fst (snd (processAudioFrame p buf now (voiceDetection am)))"
proof (cases "\<not> isMonitoring am \<or> monitorStates am p = None \<or> (\<exists>e. calculateVolume buf = Inl e)")
  case True
  from monitorProcessAudioFrame_other(4) [OF True, of now] show ?thesis by simp
next
  case False
  then obtain st v where live: "isMonitoring am" "monitorStates am p = Some st" "calculateVolume buf = Inr v"
    by (cases "calculateVolume buf"; cases "monitorStates am p") auto
  show ?thesis
    unfolding monitorProcessAudioFrame_live [OF live]
    by (simp add: Let_def dispatch_simps checkForInterruption_simps updateVolumeBuffer_simps)
qed

lemma monitor_frame_states_other:
  assumes "q \<noteq> p"
  shows "monitorStates (fst (snd (monitorProcessAudioFrame p buf now am))) q = monitorStates am q"
proof (cases "\<not> isMonitoring am \<or> monitorStates am p = None \<or> (\<exists>e. calculateVolume buf = Inl e)")
  case True
  then show ?thesis
    by (auto simp: monitorProcessAudioFrame_def Let_def assms split: option.splits)
next
  case False
  then obtain st v where live: "isMonitoring am" "monitorStates am p = Some st" "calculateVolume buf = Inr v"
    by (cases "calculateVolume buf"; cases "monitorStates am p") auto
  let ?c = "checkForInterruption p v (updateVolumeBuffer p v
                (am\<lparr> monitorStates := (monitorStates am)(p \<mapsto> st\<lparr> monitorLastActivity := now \<rparr>) \<rparr>))"
  let ?r = "processAudioFrame p buf now (voiceDetection (fst ?c))"
  have "\<forall>e\<in>set (snd (snd ?r)). eventParticipant e \<noteq> q"
    using processAudioFrame_participants assms by blast
  from dispatch_other [OF this] show ?thesis
    unfolding monitorProcessAudioFrame_live [OF live]
    using assms by (simp add: Let_def checkForInterruption_simps updateVolumeBuffer_simps)
qed

lemma monitorStep_frame:
  "monitorStep (Frame p buf now) am = snd (monitorProcessAudioFrame p buf now am)"
  by (simp split: prod.splits)

lemma monitorRun_Cons:
  "monitorRun (x # xs) am =
     (fst (monitorRun xs (fst (monitorStep x am))),
      snd (monitorStep x am) @ snd (monitorRun xs (fst (monitorStep x am))))"
  by (simp split: prod.splits)

lemma monitorFireTimer_eq:
  "monitorFireTimer p f am =
     dispatch (snd (fireTimer p f (voiceDetection am))) f
       (am\<lparr> voiceDetection := fst (fireTimer p f (voiceDetection am)) \<rparr>)"
  by (simp add: monitorFireTimer_def split: prod.splits)

lemma monitorFireTimer_simps:
  "volumeBuffers (fst (monitorFireTimer p f am)) = volumeBuffers am"
  "monitorConfig (fst (monitorFireTimer p f am)) = monitorConfig am"
  "voiceDetection (fst (monitorFireTimer p f am)) = fst (fireTimer p f (voiceDetection am))"
  by (simp_all add: monitorFireTimer_eq dispatch_simps)

lemma monitorFireTimer_participants:
  assumes "x \<in> set (snd (monitorFireTimer p f am))"
  shows "eventParticipant x = p"
proof -
  have all: "\<forall>e\<in>set (snd (fireTimer p f (voiceDetection am))). eventParticipant e = p"
    using fireTimer_participants by blast
  from assms have "x \<in> set (snd (dispatch (snd (fireTimer p f (voiceDetection am))) f
      (am\<lparr> voiceDetection := fst (fireTimer p f (voiceDetection am)) \<rparr>)))"
    by (simp add: monitorFireTimer_eq)
  from dispatch_participants [OF all this] show ?thesis .
qed

lemma monitorFireTimer_states_other:
  assumes "q \<noteq> p"
  shows "monitorStates (fst (monitorFireTimer p f am)) q = monitorStates am q"
proof -
  have "\<forall>e\<in>set (snd (fireTimer p f (voiceDetection am))). eventParticipant e \<noteq> q"
    using fireTimer_participants assms by blast
  from dispatch_other [OF this] show ?thesis
    by (simp add: monitorFireTimer_eq)
qed

lemma monitorFireTimer_no_timer:
  "debounceTimers (voiceDetection am) p = None \<Longrightarrow> monitorFireTimer p f am = (am, [])"
  by (simp add: monitorFireTimer_def fireTimer_no_timer)

text \<open>Every event of a step is about the participant of the input.\<close>

lemma monitorStep_participants:
  "x \<in> set (snd (monitorStep i am)) \<Longrightarrow> eventParticipant x = inputParticipant i"
  by (cases i)
     (simp_all add: monitorStep_frame monitor_frame_participants monitorFireTimer_participants
        del: monitorStep.simps(1))

lemma monitorStep_config: "monitorConfig (fst (monitorStep i am)) = monitorConfig am"
  by (cases i)
     (simp_all add: monitorStep_frame monitor_frame_windows(4) monitorFireTimer_simps
        startMonitoring_def stopMonitoring_def Let_def del: monitorStep.simps(1))

lemma monitorRun_config: "monitorConfig (fst (monitorRun xs am)) = monitorConfig am"
  by (induction xs arbitrary: am)
     (simp_all add: monitorRun_Cons monitorStep_config del: monitorRun.simps(2))

text \<open>A step lengthens a participant's volume window by at most one, and only for a frame of that participant.\<close>

lemma monitorStep_window:
  "windowLength (fst (monitorStep i am)) p
     \<le> windowLength am p + (if isFrameOf p i then 1 else 0)"
proof (cases i)
  case (Frame q buf now)
  show ?thesis
  proof (cases "q = p")
    case True
    with Frame show ?thesis
      using monitor_frame_windows(2) [of p buf now am]
      by (simp add: monitorStep_frame del: monitorStep.simps(1))
  next
    case False
    then have "volumeBuffers (fst (snd (monitorProcessAudioFrame q buf now am))) p = volumeBuffers am p"
      using monitor_frame_windows(1) [of p q buf now am] by simp
    with Frame False show ?thesis
      by (simp add: monitorStep_frame windowLength_def del: monitorStep.simps(1))
  qed
next
  case (TimerFires q f)
  then show ?thesis by (simp add: windowLength_def monitorFireTimer_simps)
next
  case (StartMonitoring q now)
  then show ?thesis by (simp add: windowLength_def startMonitoring_def)
next
  case (StopMonitoring q)
  then show ?thesis by (simp add: windowLength_def stopMonitoring_def Let_def)
qed

lemma monitorStep_window_bounded:
  assumes "int (windowLength am p) \<le> max 0 (volumeWindowSize (monitorConfig am))"
  shows "int (windowLength (fst (monitorStep i am)) p) \<le> max 0 (volumeWindowSize (monitorConfig am))"
proof (cases "isFrameOf p i")
  case False
  with monitorStep_window [of i am p] assms show ?thesis by simp
next
  case True
  then obtain buf now where "i = Frame p buf now" by (cases i) auto
  then show ?thesis
    using monitor_frame_windows(3) [OF assms, of buf now]
    by (simp add: monitorStep_frame del: monitorStep.simps(1))
qed

lemma monitorRun_window_bounded:
  assumes "int (windowLength am p) \<le> max 0 (volumeWindowSize (monitorConfig am))"
  shows "int (windowLength (fst (monitorRun xs am)) p) \<le> max 0 (volumeWindowSize (monitorConfig am))"
  using assms
proof (induction xs arbitrary: am)
  case Nil
  then show ?case by simp
next
  case (Cons x xs)
  from Cons.IH [of "fst (monitorStep x am)"] monitorStep_window_bounded [OF Cons.prems, of x]
  show ?case by (simp add: monitorRun_Cons monitorStep_config del: monitorRun.simps(2))
qed

lemma monitorStep_interruption:
  assumes "InterruptionDetected p \<in> set (snd (monitorStep i am))"
  shows "isFrameOf p i \<and> volumeWindowSize (monitorConfig am) \<le> int (windowLength am p) + 1"
proof (cases i)
  case (Frame q buf now)
  with assms have in_frame: "InterruptionDetected p \<in> set (snd (snd (monitorProcessAudioFrame q buf now am)))"
    by (simp add: monitorStep_frame del: monitorStep.simps(1))
  note f = monitor_frame_interruption [OF in_frame]
  have "int (length (windowAfterPush am q (volumeOf buf))) \<le> int (windowLength am q) + 1"
    using windowAfterPush_length [of am q "volumeOf buf"] by simp
  with f(1,2) Frame show ?thesis by simp
next
  case (TimerFires q f)
  with assms have "InterruptionDetected p \<in> set (snd (dispatch (snd (fireTimer q f (voiceDetection am))) f
      (am\<lparr> voiceDetection := fst (fireTimer q f (voiceDetection am)) \<rparr>)))"
    by (simp add: monitorFireTimer_eq)
  from dispatch_events [OF this] have "InterruptionDetected p \<in> set (snd (fireTimer q f (voiceDetection am)))"
    by auto
  from fireTimer_kinds [OF this] show ?thesis by auto
next
  case (StartMonitoring q now)
  with assms show ?thesis by simp
next
  case (StopMonitoring q)
  with assms show ?thesis by simp
qed

lemma monitorRun_no_interruption:
  assumes "int (windowLength am p + length (filter (isFrameOf p) xs)) < volumeWindowSize (monitorConfig am)"
  shows "InterruptionDetected p \<notin> set (snd (monitorRun xs am))"
  using assms
proof (induction xs arbitrary: am)
  case Nil
  then show ?case by simp
next
  case (Cons x xs)
  let ?am1 = "fst (monitorStep x am)"
  have here: "InterruptionDetected p \<notin> set (snd (monitorStep x am))"
  proof
    assume "InterruptionDetected p \<in> set (snd (monitorStep x am))"
    from monitorStep_interruption [OF this] Cons.prems show False by simp
  qed
  have "int (windowLength ?am1 p + length (filter (isFrameOf p) xs)) < volumeWindowSize (monitorConfig ?am1)"
    using monitorStep_window [of x am p] Cons.prems by (simp add: monitorStep_config split: if_splits)
  from Cons.IH [OF this] here show ?case
    by (simp add: monitorRun_Cons del: monitorRun.simps(2))
qed

lemma cleanup_participant:
  "participantStates (cleanup (Some p) vd) p = None"
  "debounceTimers (cleanup (Some p) vd) p = None"
  "processingFlags (cleanup (Some p) vd) p = None"
  by (cases p; simp add: cleanup_def)+

lemma cleanup_keeps_none:
  "participantStates vd q = None \<Longrightarrow> participantStates (cleanup x vd) q = None"
  "debounceTimers vd q = None \<Longrightarrow> debounceTimers (cleanup x vd) q = None"
  by (auto simp: cleanup_def split: option.splits list.splits)

lemma stopMonitoring_forgotten: "forgotten (stopMonitoring p am) p"
  by (simp add: forgotten_def stopMonitoring_def Let_def cleanup_participant)

lemma stopMonitoring_keeps_forgotten: "forgotten am q \<Longrightarrow> forgotten (stopMonitoring p am) q"
  by (simp add: forgotten_def stopMonitoring_def Let_def cleanup_keeps_none)

lemma monitor_frame_ignored:
  "monitorStates am p = None \<Longrightarrow> monitorProcessAudioFrame p buf now am = (None, am, [])"
  by (simp add: monitorProcessAudioFrame_def)

text \<open>A step that does not start monitoring a forgotten participant leaves it forgotten and emits nothing for it.\<close>

lemma monitorStep_forgotten:
  assumes "forgotten am p" and "\<not> startsMonitoring p i"
  shows "forgotten (fst (monitorStep i am)) p"
    and "\<forall>e\<in>set (snd (monitorStep i am)). eventParticipant e \<noteq> p"
proof -
  from assms(1) have f: "monitorStates am p = None" "volumeBuffers am p = None"
      "participantStates (voiceDetection am) p = None" "debounceTimers (voiceDetection am) p = None"
    by (simp_all add: forgotten_def)
  have "forgotten (fst (monitorStep i am)) p \<and> (\<forall>e\<in>set (snd (monitorStep i am)). eventParticipant e \<noteq> p)"
  proof (cases "inputParticipant i = p")
    case True
    show ?thesis
    proof (cases i)
      case (Frame q buf now)
      with True f(1) assms(1) show ?thesis by (simp add: monitor_frame_ignored)
    next
      case (TimerFires q t)
      with True f(4) assms(1) show ?thesis by (simp add: monitorFireTimer_no_timer)
    next
      case (StartMonitoring q now)
      with True assms(2) show ?thesis by simp
    next
      case (StopMonitoring q)
      with True show ?thesis by (simp add: stopMonitoring_forgotten)
    qed
  next
    case False
    have quiet: "\<forall>e\<in>set (snd (monitorStep i am)). eventParticipant e \<noteq> p"
      using monitorStep_participants [of _ i am] False by auto
    have "forgotten (fst (monitorStep i am)) p"
    proof (cases i)
      case (Frame q buf now)
      with False have ne: "p \<noteq> q" by simp
      let ?am' = "fst (snd (monitorProcessAudioFrame q buf now am))"
      have "monitorStates ?am' p = None" using monitor_frame_states_other [OF ne] f(1) by simp
      moreover have "volumeBuffers ?am' p = None" using monitor_frame_windows(1) [OF ne] f(2) by simp
      moreover have "participantStates (voiceDetection ?am') p = None
          \<and> debounceTimers (voiceDetection ?am') p = None"
        using monitor_frame_detector [of q buf now am] processAudioFrame_other [OF ne] f(3,4)
        by auto
      ultimately show ?thesis
        using Frame by (simp add: forgotten_def monitorStep_frame del: monitorStep.simps(1))
    next
      case (TimerFires q t)
      with False have ne: "p \<noteq> q" by simp
      show ?thesis
        using TimerFires f monitorFireTimer_states_other [OF ne] fireTimer_other [OF ne]
        by (simp add: forgotten_def monitorFireTimer_simps)
    next
      case (StartMonitoring q now)
      with False f show ?thesis by (simp add: forgotten_def startMonitoring_def)
    next
      case (StopMonitoring q)
      with assms(1) show ?thesis by (simp add: stopMonitoring_keeps_forgotten)
    qed
    with quiet show ?thesis by simp
  qed
  then show "forgotten (fst (monitorStep i am)) p"
    and "\<forall>e\<in>set (snd (monitorStep i am)). eventParticipant e \<noteq> p" by simp_all
qed

lemma monitorRun_forgotten:
  assumes "forgotten am p" and "\<not> list_ex (startsMonitoring p) xs"
  shows "\<forall>e\<in>set (snd (monitorRun xs am)). eventParticipant e \<noteq> p"
  using assms
proof (induction xs arbitrary: am)
  case Nil
  then show ?case by simp
next
  case (Cons x xs)
  from Cons.prems(2) have nx: "\<not> startsMonitoring p x" and nxs: "\<not> list_ex (startsMonitoring p) xs"
    by simp_all
  note step = monitorStep_forgotten [OF Cons.prems(1) nx]
  from Cons.IH [OF step(1) nxs] step(2) show ?case
    by (auto simp: monitorRun_Cons simp del: monitorRun.simps(2))
qed

section \<open>Claim C7: interruption detection\<close>

text \<open>Volumes of the frames used in the examples.\<close>

lemma square_normalized_rounded_zero: "square_normalized_rounded 0 = 0"
  by (simp add: square_normalized_rounded_def toDouble_zero)

lemma sum_squares_rounded_zeros:
  "toDouble acc = acc \<Longrightarrow> sum_squares_rounded (replicate (2 * n) 0) acc = Inr acc"
  by (induction n arbitrary: acc) (simp_all add: sample16_def square_normalized_rounded_zero)

lemma calculateVolume_zeroFrame: "calculateVolume (zeroFrame n) = Inr 0"
  using sum_squares_rounded_zeros [of 0 n]
  by (simp add: calculateVolume_def calculateVolume_loop_sum_squares zeroFrame_def
      divide_by_count_def toDouble_zero)

lemma calculateVolume_loudFrame: "calculateVolume loudFrame = Inr 1"
  by (simp add: loudFrame_def calculateVolume_def calculateVolume_loop_sum_squares sample16_def
      square_normalized_rounded_def divide_by_count_def double_eval)

text \<open>The square roots of the doubles written 0.01, 0.04 and 0.0225 round to 0.1, 0.2 and 0.15.\<close>

lemma sqrt_of_hundredth: "toDouble (sqrt (toDouble (1 / 100))) = toDouble (1 / 10)"
proof -
  have x: "toDouble (1 / 100) = 5764607523034235 / 576460752303423488"
    by (simp add: double_eval)
  have d: "toDouble (1 / 10) = 3602879701896397 / 36028797018963968"
    by (simp add: double_eval)
  let ?x = "5764607523034235 / 576460752303423488 :: real"
  have lo: "14411518807585587 / 144115188075855872 < sqrt ?x"
    by (rule real_less_rsqrt) (simp add: power2_eq_square)
  have hi: "sqrt ?x < 14411518807585589 / 144115188075855872"
    by (rule real_less_lsqrt) (simp_all add: power2_eq_square)
  have pos: "0 < sqrt ?x" by simp
  have p: "(2 :: real) powi (- 4) = 1 / 16" "(2 :: real) powi (- 4 + 1) = 1 / 8"
    "(2 :: real) powi (- 4 - 52) = 1 / 72057594037927936"
    by (simp_all add: power_int_minus_divide)
  have "toDouble (sqrt ?x) = of_int 7205759403792794 * 2 powi (- 4 - 52)"
  proof (rule toDouble_eqI)
    have "(1 / 16 :: real) \<le> 14411518807585587 / 144115188075855872" by simp
    with lo pos show "2 powi (- 4) \<le> \<bar>sqrt ?x\<bar>" unfolding p by linarith
    have "(14411518807585589 / 144115188075855872 :: real) \<le> 1 / 8" by simp
    with hi pos show "\<bar>sqrt ?x\<bar> < 2 powi (- 4 + 1)" unfolding p by linarith
    show "- 1022 \<le> (- 4 :: int)" by simp
    define v where "v = sqrt ?x / (1 / 72057594037927936)"
    have "(7205759403792794 - 1 / 2) / 72057594037927936 = (14411518807585587 / 144115188075855872 :: real)" by simp
    with lo have 1: "7205759403792794 - 1 / 2 < v"
      by (simp add: v_def field_simps)
    have "(7205759403792794 + 1 / 2) / 72057594037927936 = (14411518807585589 / 144115188075855872 :: real)" by simp
    with hi have 2: "v < 7205759403792794 + 1 / 2"
      by (simp add: v_def field_simps)
    have "real_of_int 7205759403792794 = 7205759403792794" by simp
    with 1 2 have "\<bar>v - real_of_int 7205759403792794\<bar> < 1 / 2" by linarith
    then show "\<bar>sqrt ?x / 2 powi (- 4 - 52) - of_int 7205759403792794\<bar> < 1 / 2"
      unfolding p v_def .
  qed
  then show ?thesis unfolding x d p by simp
qed

lemma sqrt_of_twenty_fifth: "toDouble (sqrt (toDouble (1 / 25))) = toDouble (1 / 5)"
proof -
  have x: "toDouble (1 / 25) = 5764607523034235 / 144115188075855872"
    by (simp add: double_eval)
  have d: "toDouble (1 / 5) = 3602879701896397 / 18014398509481984"
    by (simp add: double_eval)
  let ?x = "5764607523034235 / 144115188075855872 :: real"
  have lo: "14411518807585587 / 72057594037927936 < sqrt ?x"
    by (rule real_less_rsqrt) (simp add: power2_eq_square)
  have hi: "sqrt ?x < 14411518807585589 / 72057594037927936"
    by (rule real_less_lsqrt) (simp_all add: power2_eq_square)
  have pos: "0 < sqrt ?x" by simp
  have p: "(2 :: real) powi (- 3) = 1 / 8" "(2 :: real) powi (- 3 + 1) = 1 / 4"
    "(2 :: real) powi (- 3 - 52) = 1 / 36028797018963968"
    by (simp_all add: power_int_minus_divide)
  have "toDouble (sqrt ?x) = of_int 7205759403792794 * 2 powi (- 3 - 52)"
  proof (rule toDouble_eqI)
    have "(1 / 8 :: real) \<le> 14411518807585587 / 72057594037927936" by simp
    with lo pos show "2 powi (- 3) \<le> \<bar>sqrt ?x\<bar>" unfolding p by linarith
    have "(14411518807585589 / 72057594037927936 :: real) \<le> 1 / 4" by simp
    with hi pos show "\<bar>sqrt ?x\<bar> < 2 powi (- 3 + 1)" unfolding p by linarith
    show "- 1022 \<le> (- 3 :: int)" by simp
    define v where "v = sqrt ?x / (1 / 36028797018963968)"
    have "(7205759403792794 - 1 / 2) / 36028797018963968 = (14411518807585587 / 72057594037927936 :: real)" by simp
    with lo have 1: "7205759403792794 - 1 / 2 < v"
      by (simp add: v_def field_simps)
    have "(7205759403792794 + 1 / 2) / 36028797018963968 = (14411518807585589 / 72057594037927936 :: real)" by simp
    with hi have 2: "v < 7205759403792794 + 1 / 2"
      by (simp add: v_def field_simps)
    have "real_of_int 7205759403792794 = 7205759403792794" by simp
    with 1 2 have "\<bar>v - real_of_int 7205759403792794\<bar> < 1 / 2" by linarith
    then show "\<bar>sqrt ?x / 2 powi (- 3 - 52) - of_int 7205759403792794\<bar> < 1 / 2"
      unfolding p v_def .
  qed
  then show ?thesis unfolding x d p by simp
qed

lemma sqrt_of_nine_four_hundredths: "toDouble (sqrt (toDouble (9 / 400))) = toDouble (3 / 20)"
proof -
  have x: "toDouble (9 / 400) = 3242591731706757 / 144115188075855872"
    by (simp add: double_eval)
  have d: "toDouble (3 / 20) = 5404319552844595 / 36028797018963968"
    by (simp add: double_eval)
  let ?x = "3242591731706757 / 144115188075855872 :: real"
  have lo: "10808639105689189 / 72057594037927936 < sqrt ?x"
    by (rule real_less_rsqrt) (simp add: power2_eq_square)
  have hi: "sqrt ?x < 10808639105689191 / 72057594037927936"
    by (rule real_less_lsqrt) (simp_all add: power2_eq_square)
  have pos: "0 < sqrt ?x" by simp
  have p: "(2 :: real) powi (- 3) = 1 / 8" "(2 :: real) powi (- 3 + 1) = 1 / 4"
    "(2 :: real) powi (- 3 - 52) = 1 / 36028797018963968"
    by (simp_all add: power_int_minus_divide)
  have "toDouble (sqrt ?x) = of_int 5404319552844595 * 2 powi (- 3 - 52)"
  proof (rule toDouble_eqI)
    have "(1 / 8 :: real) \<le> 10808639105689189 / 72057594037927936" by simp
    with lo pos show "2 powi (- 3) \<le> \<bar>sqrt ?x\<bar>" unfolding p by linarith
    have "(10808639105689191 / 72057594037927936 :: real) \<le> 1 / 4" by simp
    with hi pos show "\<bar>sqrt ?x\<bar> < 2 powi (- 3 + 1)" unfolding p by linarith
    show "- 1022 \<le> (- 3 :: int)" by simp
    define v where "v = sqrt ?x / (1 / 36028797018963968)"
    have "(5404319552844595 - 1 / 2) / 36028797018963968 = (10808639105689189 / 72057594037927936 :: real)" by simp
    with lo have 1: "5404319552844595 - 1 / 2 < v"
      by (simp add: v_def field_simps)
    have "(5404319552844595 + 1 / 2) / 36028797018963968 = (10808639105689191 / 72057594037927936 :: real)" by simp
    with hi have 2: "v < 5404319552844595 + 1 / 2"
      by (simp add: v_def field_simps)
    have "real_of_int 5404319552844595 = 5404319552844595" by simp
    with 1 2 have "\<bar>v - real_of_int 5404319552844595\<bar> < 1 / 2" by linarith
    then show "\<bar>sqrt ?x / 2 powi (- 3 - 52) - of_int 5404319552844595\<bar> < 1 / 2"
      unfolding p v_def .
  qed
  then show ?thesis unfolding x d p by simp
qed

lemma length_pulseFrame: "length (pulseFrame hi) = 50"
  by (simp add: pulseFrame_def)

lemma sum_squares_rounded_pulseFrame:
  "toDouble (square_normalized_rounded (sample16 0 hi)) = square_normalized_rounded (sample16 0 hi)
   \<Longrightarrow> sum_squares_rounded (pulseFrame hi) 0 = Inr (square_normalized_rounded (sample16 0 hi))"
  using sum_squares_rounded_zeros [of "square_normalized_rounded (sample16 0 hi)" 24]
  by (simp add: pulseFrame_def)

lemma calculateVolume_pulseFrame:
  "calculateVolume (pulseFrame 64) = Inr (toDouble (1 / 10))"
  "calculateVolume (pulseFrame 128) = Inr (toDouble (1 / 5))"
  "calculateVolume (pulseFrame 96) = Inr (toDouble (3 / 20))"
proof -
  have s: "square_normalized_rounded (sample16 0 64) = 1 / 4"
    "square_normalized_rounded (sample16 0 128) = 1"
    "square_normalized_rounded (sample16 0 96) = 9 / 16"
    by (simp_all add: square_normalized_rounded_def sample16_def double_eval)
  have t: "toDouble (1 / 4) = 1 / 4" "toDouble 1 = 1" "toDouble (9 / 16) = 9 / 16"
    by (simp_all add: double_eval)
  have sums: "sum_squares_rounded (pulseFrame 64) 0 = Inr (1 / 4)"
    "sum_squares_rounded (pulseFrame 128) 0 = Inr 1"
    "sum_squares_rounded (pulseFrame 96) 0 = Inr (9 / 16)"
    using sum_squares_rounded_pulseFrame [of 64] sum_squares_rounded_pulseFrame [of 128]
      sum_squares_rounded_pulseFrame [of 96]
    by (simp_all add: s t)
  show "calculateVolume (pulseFrame 64) = Inr (toDouble (1 / 10))"
    using sqrt_of_hundredth
    by (simp add: calculateVolume_def calculateVolume_loop_sum_squares sums length_pulseFrame
        divide_by_count_def)
  show "calculateVolume (pulseFrame 128) = Inr (toDouble (1 / 5))"
    using sqrt_of_twenty_fifth
    by (simp add: calculateVolume_def calculateVolume_loop_sum_squares sums length_pulseFrame
        divide_by_count_def)
  show "calculateVolume (pulseFrame 96) = Inr (toDouble (3 / 20))"
    using sqrt_of_nine_four_hundredths
    by (simp add: calculateVolume_def calculateVolume_loop_sum_squares sums length_pulseFrame
        divide_by_count_def)
qed

lemmas monitor_eval =
  monitorProcessAudioFrame_def newAudioMonitor_def defaultMonitorConfig_def startMonitoring_def
  updateVolumeBuffer_def checkForInterruption_def handleSpeechStarted_def handleSpeechEnded_def
  VoiceDetectionConfig.truncate_def

text \<open>A frame of a monitored participant: what it leaves in the window, and when it interrupts.\<close>

lemma monitor_frame_live:
  assumes "isMonitoring am" and "monitorStates am p = Some st" and "calculateVolume buf = Inr v"
  shows "isMonitoring (fst (snd (monitorProcessAudioFrame p buf now am)))"
    and "monitorStates (fst (snd (monitorProcessAudioFrame p buf now am))) p \<noteq> None"
    and "volumeBuffers (fst (snd (monitorProcessAudioFrame p buf now am))) p =
           Some (if volumeWindowSize (monitorConfig am) \<le> int (length (windowAfterPush am p v))
                    \<and> windowAfterPush am p v \<noteq> []
                    \<and> number_greater (windowMean (windowAfterPush am p v))
                          (Finite (speakingThreshold (monitorConfig am)))
                 then [] else windowAfterPush am p v)"
    and "InterruptionDetected p \<in> set (snd (snd (monitorProcessAudioFrame p buf now am))) \<longleftrightarrow>
           volumeWindowSize (monitorConfig am) \<le> int (length (windowAfterPush am p v))
           \<and> windowAfterPush am p v \<noteq> []
           \<and> number_greater (windowMean (windowAfterPush am p v))
                 (Finite (speakingThreshold (monitorConfig am)))"
proof -
  let ?am1 = "am\<lparr> monitorStates := (monitorStates am)(p \<mapsto> st\<lparr> monitorLastActivity := now \<rparr>) \<rparr>"
  let ?am2 = "updateVolumeBuffer p v ?am1"
  let ?w = "windowAfterPush am p v"
  let ?c = "checkForInterruption p v ?am2"
  let ?r = "processAudioFrame p buf now (voiceDetection (fst ?c))"
  let ?d = "dispatch (snd (snd ?r)) now ((fst ?c)\<lparr> voiceDetection := fst (snd ?r) \<rparr>)"
  have w1: "windowAfterPush ?am1 p v = ?w" by (rule windowAfterPush_cong) simp_all
  have vb2: "volumeBuffers ?am2 p = Some ?w" by (simp add: updateVolumeBuffer_simps w1)
  have cfg2: "monitorConfig ?am2 = monitorConfig am" by (simp add: updateVolumeBuffer_simps)
  note c = checkForInterruption_emits [OF vb2, of v]
  have eq: "monitorProcessAudioFrame p buf now am =
      (fst ?r, fst ?d, snd ?c @ snd ?d @ (if fst ?r = None then [VolumeDetected p v] else []))"
    unfolding monitorProcessAudioFrame_live [OF assms] by (simp add: Let_def)
  show "isMonitoring (fst (snd (monitorProcessAudioFrame p buf now am)))"
    unfolding eq using assms(1)
    by (simp add: dispatch_simps checkForInterruption_simps updateVolumeBuffer_simps)
  have "dom (monitorStates (fst ?d)) = dom (monitorStates ?am1)"
    by (simp add: dispatch_simps checkForInterruption_simps updateVolumeBuffer_simps)
  then have "p \<in> dom (monitorStates (fst ?d))" by simp
  then show "monitorStates (fst (snd (monitorProcessAudioFrame p buf now am))) p \<noteq> None"
    unfolding eq by auto
  show "volumeBuffers (fst (snd (monitorProcessAudioFrame p buf now am))) p =
           Some (if volumeWindowSize (monitorConfig am) \<le> int (length ?w) \<and> ?w \<noteq> []
                    \<and> number_greater (windowMean ?w) (Finite (speakingThreshold (monitorConfig am)))
                 then [] else ?w)"
    unfolding eq c cfg2 by (simp add: dispatch_simps vb2)
  from monitorProcessAudioFrame_Inr(1) [OF assms, of now] obtain out where
    ev: "snd (snd (monitorProcessAudioFrame p buf now am)) = snd ?c @ out"
    and clean: "\<forall>x\<in>set out. \<forall>q. x \<noteq> InterruptionDetected q" by blast
  have "InterruptionDetected p \<in> set (snd (snd (monitorProcessAudioFrame p buf now am)))
      \<longleftrightarrow> InterruptionDetected p \<in> set (snd ?c)"
    unfolding ev using clean by auto
  then show "InterruptionDetected p \<in> set (snd (snd (monitorProcessAudioFrame p buf now am))) \<longleftrightarrow>
           volumeWindowSize (monitorConfig am) \<le> int (length ?w) \<and> ?w \<noteq> []
           \<and> number_greater (windowMean ?w) (Finite (speakingThreshold (monitorConfig am)))"
    unfolding c cfg2 by simp
qed

text \<open>Frames that do not fill the window are appended to it.\<close>

lemma frames_fill_window:
  assumes "isMonitoring am" and "monitorStates am p \<noteq> None" and "volumeBuffers am p = Some w"
    and "list_all (\<lambda>(buf, now). even (length buf)) fs"
    and "int (length w + length fs) < volumeWindowSize (monitorConfig am)"
  shows "isMonitoring (fst (monitorRun (map (\<lambda>(buf, now). Frame p buf now) fs) am))
     \<and> monitorStates (fst (monitorRun (map (\<lambda>(buf, now). Frame p buf now) fs) am)) p \<noteq> None
     \<and> volumeBuffers (fst (monitorRun (map (\<lambda>(buf, now). Frame p buf now) fs) am)) p
         = Some (w @ map (\<lambda>(buf, now). volumeOf buf) fs)"
  using assms
proof (induction fs arbitrary: am w)
  case Nil
  then show ?case by simp
next
  case (Cons f fs)
  obtain buf now where f: "f = (buf, now)" by (cases f)
  from Cons.prems(2) obtain st where st: "monitorStates am p = Some st" by auto
  from Cons.prems(4) f have "even (length buf)" by simp
  from calculateVolume_even [OF this] obtain v where v: "calculateVolume buf = Inr v" by blast
  then have vo: "volumeOf buf = v" by (simp add: volumeOf_def)
  let ?am1 = "fst (snd (monitorProcessAudioFrame p buf now am))"
  have push: "windowAfterPush am p v = w @ [v]"
    using Cons.prems(3,5) by (simp add: windowAfterPush_def Let_def)
  note l = monitor_frame_live [OF Cons.prems(1) st v, of now]
  have short: "\<not> volumeWindowSize (monitorConfig am) \<le> int (length (windowAfterPush am p v))"
    using Cons.prems(5) by (simp add: push)
  have vb: "volumeBuffers ?am1 p = Some (w @ [v])" using l(3) short by (simp add: push)
  have cfg: "monitorConfig ?am1 = monitorConfig am" by (rule monitor_frame_windows(4))
  have len: "int (length (w @ [v]) + length fs) < volumeWindowSize (monitorConfig ?am1)"
    using Cons.prems(5) cfg by simp
  have rest: "list_all (\<lambda>(buf, now). even (length buf)) fs" using Cons.prems(4) by simp
  from Cons.IH [OF l(1) l(2) vb rest len]
  show ?case
    by (simp add: f vo monitorRun_Cons monitorStep_frame del: monitorRun.simps(2) monitorStep.simps(1))
qed

lemma volumeOf_frames:
  "volumeOf (zeroFrame n) = 0" "volumeOf loudFrame = 1"
  "volumeOf (pulseFrame 64) = toDouble (1 / 10)"
  "volumeOf (pulseFrame 128) = toDouble (1 / 5)"
  "volumeOf (pulseFrame 96) = toDouble (3 / 20)"
  by (simp_all add: volumeOf_def calculateVolume_zeroFrame calculateVolume_loudFrame
      calculateVolume_pulseFrame)

lemma started_monitor:
  "isMonitoring (startMonitoring p now (newAudioMonitor cfg))"
  "monitorStates (startMonitoring p now (newAudioMonitor cfg)) p \<noteq> None"
  "volumeBuffers (startMonitoring p now (newAudioMonitor cfg)) p = Some []"
  "monitorConfig (startMonitoring p now (newAudioMonitor cfg)) = cfg"
  by (simp_all add: startMonitoring_def newAudioMonitor_def)

lemma double_values:
  "toDouble (1 / 10) = 3602879701896397 / 36028797018963968"
  "toDouble (1 / 5) = 3602879701896397 / 18014398509481984"
  "toDouble (3 / 20) = 5404319552844595 / 36028797018963968"
  by (simp_all add: double_eval)

lemma nine_frames_window:
  "isMonitoring (fst (monitorRun
      [StartMonitoring ''alice'' 0, Frame ''alice'' (zeroFrame 25) 10,
       Frame ''alice'' (zeroFrame 25) 20, Frame ''alice'' (zeroFrame 25) 30,
       Frame ''alice'' (zeroFrame 25) 40, Frame ''alice'' (pulseFrame 64) 50,
       Frame ''alice'' (pulseFrame 128) 60, Frame ''alice'' (pulseFrame 96) 70,
       Frame ''alice'' (pulseFrame 128) 80, Frame ''alice'' (pulseFrame 96) 90]
      (newAudioMonitor defaultMonitorConfig)))"
  "monitorStates (fst (monitorRun
      [StartMonitoring ''alice'' 0, Frame ''alice'' (zeroFrame 25) 10,
       Frame ''alice'' (zeroFrame 25) 20, Frame ''alice'' (zeroFrame 25) 30,
       Frame ''alice'' (zeroFrame 25) 40, Frame ''alice'' (pulseFrame 64) 50,
       Frame ''alice'' (pulseFrame 128) 60, Frame ''alice'' (pulseFrame 96) 70,
       Frame ''alice'' (pulseFrame 128) 80, Frame ''alice'' (pulseFrame 96) 90]
      (newAudioMonitor defaultMonitorConfig))) ''alice'' \<noteq> None"
  "volumeBuffers (fst (monitorRun
      [StartMonitoring ''alice'' 0, Frame ''alice'' (zeroFrame 25) 10,
       Frame ''alice'' (zeroFrame 25) 20, Frame ''alice'' (zeroFrame 25) 30,
       Frame ''alice'' (zeroFrame 25) 40, Frame ''alice'' (pulseFrame 64) 50,
       Frame ''alice'' (pulseFrame 128) 60, Frame ''alice'' (pulseFrame 96) 70,
       Frame ''alice'' (pulseFrame 128) 80, Frame ''alice'' (pulseFrame 96) 90]
      (newAudioMonitor defaultMonitorConfig))) ''alice''
   = Some [0, 0, 0, 0, toDouble (1 / 10), toDouble (1 / 5), toDouble (3 / 20),
           toDouble (1 / 5), toDouble (3 / 20)]"
proof -
  let ?fs = "[(zeroFrame 25, 10), (zeroFrame 25, 20), (zeroFrame 25, 30), (zeroFrame 25, 40),
              (pulseFrame 64, 50), (pulseFrame 128, 60), (pulseFrame 96, 70),
              (pulseFrame 128, 80), (pulseFrame 96, 90 :: int)]"
  let ?am0 = "startMonitoring ''alice'' 0 (newAudioMonitor defaultMonitorConfig)"
  have even: "list_all (\<lambda>(buf, now). even (length buf)) ?fs"
    by (simp add: length_pulseFrame zeroFrame_def)
  have short: "int (length ([] :: real list) + length ?fs) < volumeWindowSize (monitorConfig ?am0)"
    by (simp add: started_monitor defaultMonitorConfig_def)
  from frames_fill_window [OF started_monitor(1,2,3) even short]
  show "isMonitoring (fst (monitorRun
      [StartMonitoring ''alice'' 0, Frame ''alice'' (zeroFrame 25) 10,
       Frame ''alice'' (zeroFrame 25) 20, Frame ''alice'' (zeroFrame 25) 30,
       Frame ''alice'' (zeroFrame 25) 40, Frame ''alice'' (pulseFrame 64) 50,
       Frame ''alice'' (pulseFrame 128) 60, Frame ''alice'' (pulseFrame 96) 70,
       Frame ''alice'' (pulseFrame 128) 80, Frame ''alice'' (pulseFrame 96) 90]
      (newAudioMonitor defaultMonitorConfig)))"
    and "monitorStates (fst (monitorRun
      [StartMonitoring ''alice'' 0, Frame ''alice'' (zeroFrame 25) 10,
       Frame ''alice'' (zeroFrame 25) 20, Frame ''alice'' (zeroFrame 25) 30,
       Frame ''alice'' (zeroFrame 25) 40, Frame ''alice'' (pulseFrame 64) 50,
       Frame ''alice'' (pulseFrame 128) 60, Frame ''alice'' (pulseFrame 96) 70,
       Frame ''alice'' (pulseFrame 128) 80, Frame ''alice'' (pulseFrame 96) 90]
      (newAudioMonitor defaultMonitorConfig))) ''alice'' \<noteq> None"
    and "volumeBuffers (fst (monitorRun
      [StartMonitoring ''alice'' 0, Frame ''alice'' (zeroFrame 25) 10,
       Frame ''alice'' (zeroFrame 25) 20, Frame ''alice'' (zeroFrame 25) 30,
       Frame ''alice'' (zeroFrame 25) 40, Frame ''alice'' (pulseFrame 64) 50,
       Frame ''alice'' (pulseFrame 128) 60, Frame ''alice'' (pulseFrame 96) 70,
       Frame ''alice'' (pulseFrame 128) 80, Frame ''alice'' (pulseFrame 96) 90]
      (newAudioMonitor defaultMonitorConfig))) ''alice''
   = Some [0, 0, 0, 0, toDouble (1 / 10), toDouble (1 / 5), toDouble (3 / 20),
           toDouble (1 / 5), toDouble (3 / 20)]"
    by (simp_all add: monitorRun_Cons volumeOf_frames del: monitorRun.simps(2) monitorStep.simps(1))
qed

lemma mean_of_ten:
  "windowMean [0, 0, 0, 0, toDouble (1 / 10), toDouble (1 / 5), toDouble (3 / 20),
               toDouble (1 / 5), toDouble (3 / 20), toDouble (1 / 5)]
     = Finite (7205759403792795 / 72057594037927936)"
  unfolding double_values by (simp add: windowMean_def toNumber_def double_eval)

text \<open>
  Claim C7, as stated: \<open>interruptionDetected\<close> is emitted only if the arithmetic mean of
  the window exceeds the threshold. The mean is computed in double precision, and the
  rounding of the sum can lift it over the threshold. Default configuration (window of 10,
  threshold 0.1); four silent frames, then frames of volume 0.1, 0.2, 0.15, 0.2, 0.15, 0.2:
  the sum of the window is computed as 1.0000000000000002 and its tenth exceeds the
  threshold, so the tenth frame emits \<open>interruptionDetected\<close>, while the arithmetic mean
  of the ten volumes in the window is below the threshold.
\<close>

theorem interruption_with_mean_below_threshold:
  "InterruptionDetected ''alice''
     \<in> set (snd (snd (monitorProcessAudioFrame ''alice'' (pulseFrame 128) 100
          (fst (monitorRun
             [StartMonitoring ''alice'' 0, Frame ''alice'' (zeroFrame 25) 10,
              Frame ''alice'' (zeroFrame 25) 20, Frame ''alice'' (zeroFrame 25) 30,
              Frame ''alice'' (zeroFrame 25) 40, Frame ''alice'' (pulseFrame 64) 50,
              Frame ''alice'' (pulseFrame 128) 60, Frame ''alice'' (pulseFrame 96) 70,
              Frame ''alice'' (pulseFrame 128) 80, Frame ''alice'' (pulseFrame 96) 90]
             (newAudioMonitor defaultMonitorConfig))))))
   \<and> windowAfterPush
        (fst (monitorRun
           [StartMonitoring ''alice'' 0, Frame ''alice'' (zeroFrame 25) 10,
            Frame ''alice'' (zeroFrame 25) 20, Frame ''alice'' (zeroFrame 25) 30,
            Frame ''alice'' (zeroFrame 25) 40, Frame ''alice'' (pulseFrame 64) 50,
            Frame ''alice'' (pulseFrame 128) 60, Frame ''alice'' (pulseFrame 96) 70,
            Frame ''alice'' (pulseFrame 128) 80, Frame ''alice'' (pulseFrame 96) 90]
           (newAudioMonitor defaultMonitorConfig)))
        ''alice'' (volumeOf (pulseFrame 128))
       = [0, 0, 0, 0, toDouble (1 / 10), toDouble (1 / 5), toDouble (3 / 20),
          toDouble (1 / 5), toDouble (3 / 20), toDouble (1 / 5)]
   \<and> sum_list [0, 0, 0, 0, toDouble (1 / 10), toDouble (1 / 5), toDouble (3 / 20),
                 toDouble (1 / 5), toDouble (3 / 20), toDouble (1 / 5)] / 10
       < speakingThreshold defaultMonitorConfig"
proof -
  let ?am = "fst (monitorRun
      [StartMonitoring ''alice'' 0, Frame ''alice'' (zeroFrame 25) 10,
       Frame ''alice'' (zeroFrame 25) 20, Frame ''alice'' (zeroFrame 25) 30,
       Frame ''alice'' (zeroFrame 25) 40, Frame ''alice'' (pulseFrame 64) 50,
       Frame ''alice'' (pulseFrame 128) 60, Frame ''alice'' (pulseFrame 96) 70,
       Frame ''alice'' (pulseFrame 128) 80, Frame ''alice'' (pulseFrame 96) 90]
      (newAudioMonitor defaultMonitorConfig))"
  let ?w = "[0, 0, 0, 0, toDouble (1 / 10), toDouble (1 / 5), toDouble (3 / 20),
             toDouble (1 / 5), toDouble (3 / 20), toDouble (1 / 5)]"
  from nine_frames_window(2) obtain st where st: "monitorStates ?am ''alice'' = Some st" by auto
  have cfg: "monitorConfig ?am = defaultMonitorConfig"
    unfolding monitorRun_config by (simp add: newAudioMonitor_def)
  have push: "windowAfterPush ?am ''alice'' (toDouble (1 / 5)) = ?w"
    unfolding windowAfterPush_def nine_frames_window(3) cfg
    by (simp add: defaultMonitorConfig_def)
  have above: "number_greater (windowMean ?w) (Finite (speakingThreshold defaultMonitorConfig))"
    unfolding mean_of_ten by (simp add: defaultMonitorConfig_def double_values)
  have "InterruptionDetected ''alice''
     \<in> set (snd (snd (monitorProcessAudioFrame ''alice'' (pulseFrame 128) 100 ?am)))"
    unfolding monitor_frame_live(4) [OF nine_frames_window(1) st calculateVolume_pulseFrame(2)]
      push cfg
    using above by (simp add: defaultMonitorConfig_def)
  moreover have "sum_list ?w / 10 < speakingThreshold defaultMonitorConfig"
    by (simp add: defaultMonitorConfig_def double_values)
  ultimately show ?thesis unfolding volumeOf_frames push by (intro conjI) simp_all
qed

text \<open>
  Claim C7, amended: in a monitor reached from a new one by any inputs, a frame emits
  \<open>interruptionDetected\<close> only for its own participant, only when the window that
  \<open>checkForInterruption\<close> looks at holds exactly \<open>volumeWindowSize\<close> volumes, and only when
  their mean as computed in double precision (the volumes added from the left, the sum
  divided by their number, each operation rounded) exceeds \<open>speakingThreshold\<close>; the
  participant's window is empty after the emission. From an empty window, inputs with
  fewer than \<open>volumeWindowSize\<close> frames of the participant emit no
  \<open>interruptionDetected\<close> for that participant.
\<close>

theorem interruption_needs_full_window:
  "(InterruptionDetected q
      \<in> set (snd (snd (monitorProcessAudioFrame p buf now
                          (fst (monitorRun history (newAudioMonitor cfg)))))) \<longrightarrow>
      q = p
      \<and> int (length (windowAfterPush (fst (monitorRun history (newAudioMonitor cfg))) p (volumeOf buf)))
          = volumeWindowSize cfg
      \<and> number_greater
            (windowMean (windowAfterPush (fst (monitorRun history (newAudioMonitor cfg))) p (volumeOf buf)))
            (Finite (speakingThreshold cfg))
      \<and> volumeBuffers (fst (snd (monitorProcessAudioFrame p buf now
                          (fst (monitorRun history (newAudioMonitor cfg)))))) p = Some [])
   \<and> (volumeBuffers am p = Some []
        \<and> int (length (filter (isFrameOf p) later)) < volumeWindowSize (monitorConfig am) \<longrightarrow>
        InterruptionDetected p \<notin> set (snd (monitorRun later am)))"
proof (intro conjI impI)
  let ?am = "fst (monitorRun history (newAudioMonitor cfg))"
  let ?w = "windowAfterPush ?am p (volumeOf buf)"
  assume ev: "InterruptionDetected q \<in> set (snd (snd (monitorProcessAudioFrame p buf now ?am)))"
  note f = monitor_frame_interruption [OF ev]
  have cfg: "monitorConfig ?am = cfg" by (simp add: monitorRun_config newAudioMonitor_def)
  have "int (windowLength (newAudioMonitor cfg) p) \<le> max 0 (volumeWindowSize (monitorConfig (newAudioMonitor cfg)))"
    by (simp add: windowLength_def newAudioMonitor_def)
  from monitorRun_window_bounded [OF this, of history]
  have "int (windowLength ?am p) \<le> max 0 (volumeWindowSize (monitorConfig ?am))"
    by (simp add: monitorRun_config)
  from windowAfterPush_bounded [OF this, of "volumeOf buf"]
  have upper: "int (length ?w) \<le> max 0 (volumeWindowSize cfg)" by (simp add: cfg)
  have pos: "0 < int (length ?w)" using f(3) by simp
  have lower: "volumeWindowSize cfg \<le> int (length ?w)" using f(2) cfg by simp
  from pos upper lower show "int (length ?w) = volumeWindowSize cfg" by linarith
  show "q = p" by (rule f(1))
  show "number_greater (windowMean ?w) (Finite (speakingThreshold cfg))" using f(4) by (simp add: cfg)
  show "volumeBuffers (fst (snd (monitorProcessAudioFrame p buf now ?am))) p = Some []" by (rule f(5))
next
  assume "volumeBuffers am p = Some []
        \<and> int (length (filter (isFrameOf p) later)) < volumeWindowSize (monitorConfig am)"
  then have "int (windowLength am p + length (filter (isFrameOf p) later)) < volumeWindowSize (monitorConfig am)"
    by (simp add: windowLength_def)
  then show "InterruptionDetected p \<notin> set (snd (monitorRun later am))"
    by (rule monitorRun_no_interruption)
qed

lemma one_loud_frame_window:
  "isMonitoring (fst (monitorRun [StartMonitoring ''alice'' 0, Frame ''alice'' loudFrame 10]
            (newAudioMonitor (defaultMonitorConfig\<lparr> volumeWindowSize := 2 \<rparr>))))"
  "monitorStates (fst (monitorRun [StartMonitoring ''alice'' 0, Frame ''alice'' loudFrame 10]
            (newAudioMonitor (defaultMonitorConfig\<lparr> volumeWindowSize := 2 \<rparr>)))) ''alice'' \<noteq> None"
  "volumeBuffers (fst (monitorRun [StartMonitoring ''alice'' 0, Frame ''alice'' loudFrame 10]
            (newAudioMonitor (defaultMonitorConfig\<lparr> volumeWindowSize := 2 \<rparr>)))) ''alice'' = Some [1]"
proof -
  let ?cfg = "defaultMonitorConfig\<lparr> volumeWindowSize := 2 \<rparr>"
  let ?am0 = "startMonitoring ''alice'' 0 (newAudioMonitor ?cfg)"
  have even: "list_all (\<lambda>(buf, now). even (length buf)) [(loudFrame, 10 :: int)]"
    by (simp add: loudFrame_def)
  have short: "int (length ([] :: real list) + length [(loudFrame, 10 :: int)])
      < volumeWindowSize (monitorConfig ?am0)"
    by (simp add: started_monitor)
  from frames_fill_window [OF started_monitor(1,2,3) even short]
  show "isMonitoring (fst (monitorRun [StartMonitoring ''alice'' 0, Frame ''alice'' loudFrame 10]
            (newAudioMonitor ?cfg)))"
    and "monitorStates (fst (monitorRun [StartMonitoring ''alice'' 0, Frame ''alice'' loudFrame 10]
            (newAudioMonitor ?cfg))) ''alice'' \<noteq> None"
    and "volumeBuffers (fst (monitorRun [StartMonitoring ''alice'' 0, Frame ''alice'' loudFrame 10]
            (newAudioMonitor ?cfg))) ''alice'' = Some [1]"
    by (simp_all add: monitorRun_Cons volumeOf_frames del: monitorRun.simps(2) monitorStep.simps(1))
qed

lemma two_loud_frames_interrupt:
  "InterruptionDetected ''alice''
     \<in> set (snd (snd (monitorProcessAudioFrame ''alice'' loudFrame 20
          (fst (monitorRun [StartMonitoring ''alice'' 0, Frame ''alice'' loudFrame 10]
                 (newAudioMonitor (defaultMonitorConfig\<lparr> volumeWindowSize := 2 \<rparr>)))))))"
  "windowAfterPush
     (fst (monitorRun [StartMonitoring ''alice'' 0, Frame ''alice'' loudFrame 10]
            (newAudioMonitor (defaultMonitorConfig\<lparr> volumeWindowSize := 2 \<rparr>))))
     ''alice'' (volumeOf loudFrame) = [1, 1]"
  "windowMean [1, 1] = Finite 1"
proof -
  let ?cfg = "defaultMonitorConfig\<lparr> volumeWindowSize := 2 \<rparr>"
  let ?am = "fst (monitorRun [StartMonitoring ''alice'' 0, Frame ''alice'' loudFrame 10]
                 (newAudioMonitor ?cfg))"
  from one_loud_frame_window(2) obtain st where st: "monitorStates ?am ''alice'' = Some st" by auto
  have cfg: "monitorConfig ?am = ?cfg"
    unfolding monitorRun_config by (simp add: newAudioMonitor_def)
  have push: "windowAfterPush ?am ''alice'' 1 = [1, 1]"
    unfolding windowAfterPush_def one_loud_frame_window(3) cfg by simp
  show mean: "windowMean [1, 1] = Finite 1"
    by (simp add: windowMean_def toNumber_def double_eval)
  show "InterruptionDetected ''alice''
     \<in> set (snd (snd (monitorProcessAudioFrame ''alice'' loudFrame 20 ?am)))"
    unfolding monitor_frame_live(4) [OF one_loud_frame_window(1) st calculateVolume_loudFrame]
      push cfg mean
    by (simp add: defaultMonitorConfig_def double_values)
  show "windowAfterPush ?am ''alice'' (volumeOf loudFrame) = [1, 1]"
    unfolding volumeOf_frames by (rule push)
qed

theorem interruption_needs_full_window_witness:
  "InterruptionDetected ''alice''
     \<in> set (snd (snd (monitorProcessAudioFrame ''alice'' loudFrame 20
          (fst (monitorRun [StartMonitoring ''alice'' 0, Frame ''alice'' loudFrame 10]
                 (newAudioMonitor (defaultMonitorConfig\<lparr> volumeWindowSize := 2 \<rparr>)))))))
   \<and> windowAfterPush
          (fst (monitorRun [StartMonitoring ''alice'' 0, Frame ''alice'' loudFrame 10]
                 (newAudioMonitor (defaultMonitorConfig\<lparr> volumeWindowSize := 2 \<rparr>))))
          ''alice'' (volumeOf loudFrame) = [1, 1]
   \<and> int (length (windowAfterPush
          (fst (monitorRun [StartMonitoring ''alice'' 0, Frame ''alice'' loudFrame 10]
                 (newAudioMonitor (defaultMonitorConfig\<lparr> volumeWindowSize := 2 \<rparr>))))
          ''alice'' (volumeOf loudFrame)))
       = volumeWindowSize (defaultMonitorConfig\<lparr> volumeWindowSize := 2 \<rparr>)
   \<and> number_greater
        (windowMean (windowAfterPush
          (fst (monitorRun [StartMonitoring ''alice'' 0, Frame ''alice'' loudFrame 10]
                 (newAudioMonitor (defaultMonitorConfig\<lparr> volumeWindowSize := 2 \<rparr>))))
          ''alice'' (volumeOf loudFrame)))
        (Finite (speakingThreshold (defaultMonitorConfig\<lparr> volumeWindowSize := 2 \<rparr>)))
   \<and> volumeBuffers (startMonitoring ''alice'' 0 (newAudioMonitor defaultMonitorConfig)) ''alice''
       = Some []
   \<and> int (length (filter (isFrameOf ''alice'') [Frame ''alice'' loudFrame 10]))
       < volumeWindowSize (monitorConfig (startMonitoring ''alice'' 0 (newAudioMonitor defaultMonitorConfig)))
   \<and> InterruptionDetected ''alice''
       \<notin> set (snd (monitorRun [Frame ''alice'' loudFrame 10]
                      (startMonitoring ''alice'' 0 (newAudioMonitor defaultMonitorConfig))))"
proof -
  let ?cfg = "defaultMonitorConfig\<lparr> volumeWindowSize := 2 \<rparr>"
  let ?am = "fst (monitorRun [StartMonitoring ''alice'' 0, Frame ''alice'' loudFrame 10]
                 (newAudioMonitor ?cfg))"
  let ?am' = "startMonitoring ''alice'' 0 (newAudioMonitor defaultMonitorConfig)"
  note ev = two_loud_frames_interrupt(1)
  note win = two_loud_frames_interrupt(2)
  have empty: "volumeBuffers ?am' ''alice'' = Some []"
    by (simp add: startMonitoring_def newAudioMonitor_def)
  have few: "int (length (filter (isFrameOf ''alice'') [Frame ''alice'' loudFrame 10]))
       < volumeWindowSize (monitorConfig ?am')"
    by (simp add: startMonitoring_def newAudioMonitor_def defaultMonitorConfig_def)
  note a = interruption_needs_full_window
    [of "''alice''" "''alice''" loudFrame 20
        "[StartMonitoring ''alice'' 0, Frame ''alice'' loudFrame 10]" ?cfg ?am'
        "[Frame ''alice'' loudFrame 10]"]
  from a ev have full: "int (length (windowAfterPush ?am ''alice'' (volumeOf loudFrame)))
       = volumeWindowSize ?cfg"
    and mean: "number_greater (windowMean (windowAfterPush ?am ''alice'' (volumeOf loudFrame)))
        (Finite (speakingThreshold ?cfg))" by blast+
  from a empty few have none: "InterruptionDetected ''alice''
       \<notin> set (snd (monitorRun [Frame ''alice'' loudFrame 10] ?am'))" by blast
  show ?thesis
    by (intro conjI) (fact ev win full mean empty few none)+
qed

section \<open>Claim C6: stopping the monitoring of a participant\<close>

lemma valid_three_zeroFrames:
  "isValidAudioBuffer (zeroFrame 1024 @ zeroFrame 1024 @ zeroFrame 1024)"
proof -
  have "zeroFrame 1024 @ zeroFrame 1024 @ zeroFrame 1024 = zeroFrame 3072"
    by (simp add: zeroFrame_def replicate_add [symmetric])
  then show ?thesis using zeroFrame_valid [of 3072] by simp
qed

lemma three_zeroFrames_not_riff:
  "asciiSlice (zeroFrame 1024 @ zeroFrame 1024 @ zeroFrame 1024) 0 4 \<noteq> [82, 73, 70, 70]"
proof
  assume eq: "asciiSlice (zeroFrame 1024 @ zeroFrame 1024 @ zeroFrame 1024) 0 4 = [82, 73, 70, 70]"
  have "set (asciiSlice (zeroFrame 1024 @ zeroFrame 1024 @ zeroFrame 1024) 0 4) \<subseteq> {0}"
    by (auto simp: asciiSlice_def zeroFrame_def dest: in_set_takeD)
  with eq show False by simp
qed

lemma length_zeroFrame: "length (zeroFrame n) = 2 * n"
  by (simp add: zeroFrame_def)

lemma pending_turn:
  "debounceTimers (voiceDetection
     (fst (monitorRun [StartMonitoring ''alice'' 0, Frame ''alice'' loudFrame 10,
                       Frame ''alice'' loudFrame 20, Frame ''alice'' loudFrame 30,
                       Frame ''alice'' (zeroFrame 1024) 40, Frame ''alice'' (zeroFrame 1024) 50,
                       Frame ''alice'' (zeroFrame 1024) 60]
             (newAudioMonitor defaultMonitorConfig)))) ''alice'' = Some (Timer 160 False)"
  "snd (monitorRun [TimerFires ''alice'' 160]
     (fst (monitorRun [StartMonitoring ''alice'' 0, Frame ''alice'' loudFrame 10,
                       Frame ''alice'' loudFrame 20, Frame ''alice'' loudFrame 30,
                       Frame ''alice'' (zeroFrame 1024) 40, Frame ''alice'' (zeroFrame 1024) 50,
                       Frame ''alice'' (zeroFrame 1024) 60]
             (newAudioMonitor defaultMonitorConfig))))
   = [SpeechEnded ''alice'' (zeroFrame 1024 @ zeroFrame 1024 @ zeroFrame 1024),
      SpeakingStopped ''alice'' (zeroFrame 1024 @ zeroFrame 1024 @ zeroFrame 1024),
      SpeechTurn ''alice'' (zeroFrame 1024 @ zeroFrame 1024 @ zeroFrame 1024) 130,
      SpeakingStopped ''alice'' (zeroFrame 1024 @ zeroFrame 1024 @ zeroFrame 1024)]"
  by (simp_all add: monitor_eval detector_eval calculateVolume_loudFrame calculateRMS_loudFrame
      calculateVolume_zeroFrame calculateRMS_zeroFrame length_zeroFrame monitorFireTimer_def
      three_zeroFrames_not_riff)

text \<open>
  Claim C6. \<open>stopMonitoring\<close> (through \<open>cleanup\<close>) removes the participant's debounce
  timer and the participant's entry with its buffers, whatever state they were in; a
  firing of the cancelled timer does nothing; and as long as monitoring of the
  participant is not started again, no input makes the monitor or its detector emit any
  event for the participant, so in particular no \<open>speechEnded\<close> and no \<open>speechTurn\<close>.
\<close>

theorem stopMonitoring_cancels_pending_turn:
  assumes "\<not> list_ex (startsMonitoring p) later"
  shows "debounceTimers (voiceDetection (stopMonitoring p am)) p = None
     \<and> participantStates (voiceDetection (stopMonitoring p am)) p = None
     \<and> monitorFireTimer p now (stopMonitoring p am) = (stopMonitoring p am, [])
     \<and> (\<forall>e\<in>set (snd (monitorRun later (stopMonitoring p am))). eventParticipant e \<noteq> p)"
proof -
  have f: "forgotten (stopMonitoring p am) p" by (rule stopMonitoring_forgotten)
  then have t: "debounceTimers (voiceDetection (stopMonitoring p am)) p = None"
    and s: "participantStates (voiceDetection (stopMonitoring p am)) p = None"
    by (simp_all add: forgotten_def)
  from t have "monitorFireTimer p now (stopMonitoring p am) = (stopMonitoring p am, [])"
    by (rule monitorFireTimer_no_timer)
  with t s monitorRun_forgotten [OF f assms] show ?thesis by blast
qed

theorem stopMonitoring_cancels_pending_turn_witness:
  "\<not> list_ex (startsMonitoring ''alice'') [TimerFires ''alice'' 160, Frame ''alice'' loudFrame 170]
   \<and> debounceTimers (voiceDetection
        (fst (monitorRun [StartMonitoring ''alice'' 0, Frame ''alice'' loudFrame 10,
                          Frame ''alice'' loudFrame 20, Frame ''alice'' loudFrame 30,
                          Frame ''alice'' (zeroFrame 1024) 40, Frame ''alice'' (zeroFrame 1024) 50,
                          Frame ''alice'' (zeroFrame 1024) 60]
                (newAudioMonitor defaultMonitorConfig)))) ''alice'' = Some (Timer 160 False)
   \<and> snd (monitorRun [TimerFires ''alice'' 160]
        (fst (monitorRun [StartMonitoring ''alice'' 0, Frame ''alice'' loudFrame 10,
                          Frame ''alice'' loudFrame 20, Frame ''alice'' loudFrame 30,
                          Frame ''alice'' (zeroFrame 1024) 40, Frame ''alice'' (zeroFrame 1024) 50,
                          Frame ''alice'' (zeroFrame 1024) 60]
                (newAudioMonitor defaultMonitorConfig))))
       = [SpeechEnded ''alice'' (zeroFrame 1024 @ zeroFrame 1024 @ zeroFrame 1024),
          SpeakingStopped ''alice'' (zeroFrame 1024 @ zeroFrame 1024 @ zeroFrame 1024),
          SpeechTurn ''alice'' (zeroFrame 1024 @ zeroFrame 1024 @ zeroFrame 1024) 130,
          SpeakingStopped ''alice'' (zeroFrame 1024 @ zeroFrame 1024 @ zeroFrame 1024)]
   \<and> debounceTimers (voiceDetection (stopMonitoring ''alice''
        (fst (monitorRun [StartMonitoring ''alice'' 0, Frame ''alice'' loudFrame 10,
                          Frame ''alice'' loudFrame 20, Frame ''alice'' loudFrame 30,
                          Frame ''alice'' (zeroFrame 1024) 40, Frame ''alice'' (zeroFrame 1024) 50,
                          Frame ''alice'' (zeroFrame 1024) 60]
                (newAudioMonitor defaultMonitorConfig))))) ''alice'' = None
   \<and> ''alice'' \<notin> set (map eventParticipant
        (snd (monitorRun [TimerFires ''alice'' 160, Frame ''alice'' loudFrame 170]
           (stopMonitoring ''alice''
             (fst (monitorRun [StartMonitoring ''alice'' 0, Frame ''alice'' loudFrame 10,
                          Frame ''alice'' loudFrame 20, Frame ''alice'' loudFrame 30,
                          Frame ''alice'' (zeroFrame 1024) 40, Frame ''alice'' (zeroFrame 1024) 50,
                          Frame ''alice'' (zeroFrame 1024) 60]
                (newAudioMonitor defaultMonitorConfig)))))))"
proof -
  let ?am = "fst (monitorRun [StartMonitoring ''alice'' 0, Frame ''alice'' loudFrame 10,
                          Frame ''alice'' loudFrame 20, Frame ''alice'' loudFrame 30,
                          Frame ''alice'' (zeroFrame 1024) 40, Frame ''alice'' (zeroFrame 1024) 50,
                          Frame ''alice'' (zeroFrame 1024) 60]
                (newAudioMonitor defaultMonitorConfig))"
  have later: "\<not> list_ex (startsMonitoring ''alice'')
      [TimerFires ''alice'' 160, Frame ''alice'' loudFrame 170]" by simp
  note stop = stopMonitoring_cancels_pending_turn [OF later, of ?am 160]
  from stop have gone: "debounceTimers (voiceDetection (stopMonitoring ''alice'' ?am)) ''alice'' = None"
    by blast
  from stop have "\<forall>e\<in>set (snd (monitorRun [TimerFires ''alice'' 160, Frame ''alice'' loudFrame 170]
      (stopMonitoring ''alice'' ?am))). eventParticipant e \<noteq> ''alice''" by blast
  then have silent: "''alice'' \<notin> set (map eventParticipant
        (snd (monitorRun [TimerFires ''alice'' 160, Frame ''alice'' loudFrame 170]
           (stopMonitoring ''alice'' ?am))))" by auto
  from later pending_turn gone silent show ?thesis by blast
qed

section \<open>The resampler\<close>

lemma sample16_range: "- 32768 \<le> sample16 lo hi \<and> sample16 lo hi \<le> 32767"
proof -
  define a where "a = uint lo"
  define b where "b = uint hi"
  have bounds: "0 \<le> a" "a < 256" "0 \<le> b" "b < 256"
    using uint_bounded [of lo] uint_bounded [of hi] by (simp_all add: a_def b_def)
  show ?thesis
    unfolding sample16_def Let_def a_def [symmetric] b_def [symmetric]
    using bounds by auto
qed

lemma sample16_of_int:
  assumes "- 32768 \<le> v" and "v \<le> 32767"
  shows "sample16 (word_of_int v) (word_of_int (v div 256)) = v"
proof -
  define q where "q = v div 256"
  define r where "r = v mod 256"
  have v: "v = q * 256 + r" by (simp add: q_def r_def)
  have r: "0 \<le> r" "r < 256" by (simp_all add: r_def)
  have q: "- 128 \<le> q" "q \<le> 127" using assms by (simp_all add: q_def)
  have lo: "uint (word_of_int v :: byte) = r"
    by (simp add: uint_word_of_int take_bit_eq_mod r_def)
  have qm: "q mod 256 = (if q < 0 then q + 256 else q)"
  proof (cases "q < 0")
    case True
    then have "(q + 256) mod 256 = q + 256" using q by (intro mod_pos_pos_trivial) simp_all
    then show ?thesis using True by simp
  next
    case False
    then have "q mod 256 = q" using q by (intro mod_pos_pos_trivial) simp_all
    then show ?thesis using False by simp
  qed
  have hi: "uint (word_of_int (v div 256) :: byte) = (if q < 0 then q + 256 else q)"
    by (simp add: uint_word_of_int take_bit_eq_mod q_def [symmetric] qm)
  show ?thesis
    unfolding sample16_def lo hi Let_def using v r q by (auto split: if_splits)
qed

lemma readInt16LE_sampleAt:
  "2 * j + 2 \<le> length buf \<Longrightarrow> readInt16LE buf (2 * j) = Inr (sampleAt buf j)"
  by (simp add: readInt16LE_def sampleAt_def sample16_def Let_def)

text \<open>Writing a sample and reading it back; samples written earlier stay.\<close>

lemma writeInt16LE_read:
  assumes "- 32768 \<le> v" and "v \<le> 32767" and "off + 2 \<le> length ob"
  shows "\<exists>written. writeInt16LE ob v off = Inr written \<and> length written = length ob
           \<and> readInt16LE written off = Inr v
           \<and> (\<forall>k. k + 2 \<le> off \<longrightarrow> readInt16LE written k = readInt16LE ob k)"
proof -
  let ?w = "ob[off := word_of_int v, off + 1 := word_of_int (v div 256)]"
  have w: "writeInt16LE ob v off = Inr ?w" using assms by (simp add: writeInt16LE_def)
  have len: "length ?w = length ob" by simp
  have "?w ! off = word_of_int v" "?w ! (off + 1) = word_of_int (v div 256)"
    using assms(3) by simp_all
  then have rd: "readInt16LE ?w off = Inr v"
    using assms sample16_of_int [OF assms(1,2)]
    by (simp add: readInt16LE_def sample16_def Let_def)
  have keep: "\<forall>k. k + 2 \<le> off \<longrightarrow> readInt16LE ?w k = readInt16LE ob k"
    by (simp add: readInt16LE_def)
  from w len rd keep show ?thesis by blast
qed

lemma convex_in_range:
  fixes a b f :: real
  assumes "lo \<le> a" "a \<le> hi" "lo \<le> b" "b \<le> hi" "0 \<le> f" "f \<le> 1"
  shows "lo \<le> a * (1 - f) + b * f \<and> a * (1 - f) + b * f \<le> hi"
proof -
  have 1: "lo * (1 - f) \<le> a * (1 - f)" "a * (1 - f) \<le> hi * (1 - f)"
    using assms by (simp_all add: mult_right_mono)
  have 2: "lo * f \<le> b * f" "b * f \<le> hi * f"
    using assms by (simp_all add: mult_right_mono)
  have "lo = lo * (1 - f) + lo * f" "hi = hi * (1 - f) + hi * f" by (simp_all add: algebra_simps)
  with 1 2 show ?thesis by linarith
qed

lemma scaled_bound:
  fixes s t d :: real
  assumes "\<bar>s\<bar> \<le> 32768" and "\<bar>t\<bar> \<le> d"
  shows "\<bar>s * t\<bar> \<le> 32768 * d"
proof -
  have "\<bar>s * t\<bar> = \<bar>s\<bar> * \<bar>t\<bar>" by (rule abs_mult)
  also have "\<dots> \<le> 32768 * d" using assms by (intro mult_mono) simp_all
  finally show ?thesis .
qed

text \<open>
  The interpolation computed in double precision stays within a millionth of the exact
  one, so its rounding is a 16-bit sample.
\<close>

lemma interpolation_in_range:
  fixes s1 s2 :: int and e :: real
  assumes s1: "- 32768 \<le> s1" "s1 \<le> 32767" and s2: "- 32768 \<le> s2" "s2 \<le> 32767"
    and e: "0 \<le> e" "e < 1"
  shows "- 32768 \<le> js_round (toDouble (toDouble (of_int s1 * toDouble (1 - toDouble e))
                                   + toDouble (of_int s2 * toDouble e)))
       \<and> js_round (toDouble (toDouble (of_int s1 * toDouble (1 - toDouble e))
                               + toDouble (of_int s2 * toDouble e))) \<le> 32767"
proof -
  define d :: real where "d = 1 / 68719476736"
  define f where "f = toDouble e"
  define g where "g = toDouble (1 - f)"
  define A where "A = real_of_int s1 * g"
  define B where "B = real_of_int s2 * f"
  define a where "a = toDouble A"
  define b where "b = toDouble B"
  define x where "x = toDouble (a + b)"
  define c where "c = real_of_int s1 * (1 - e) + real_of_int s2 * e"
  have d: "0 < d" "d \<le> 1 / 1000000" by (simp_all add: d_def)
  have r1: "\<bar>real_of_int s1\<bar> \<le> 32768" using s1 by simp
  have r2: "\<bar>real_of_int s2\<bar> \<le> 32768" using s2 by simp
  have fe: "\<bar>f - e\<bar> \<le> d"
    unfolding f_def d_def using e by (intro toDouble_error_small) simp
  have "\<bar>1 - f\<bar> \<le> 131072" using fe e d by linarith
  then have gf: "\<bar>g - (1 - f)\<bar> \<le> d"
    unfolding g_def d_def by (rule toDouble_error_small)
  have gabs: "\<bar>g\<bar> \<le> 2" using gf fe e d by linarith
  have fabs: "\<bar>f\<bar> \<le> 2" using fe e d by linarith
  have Aabs: "\<bar>A\<bar> \<le> 32768 * 2" unfolding A_def using r1 gabs by (rule scaled_bound)
  have Babs: "\<bar>B\<bar> \<le> 32768 * 2" unfolding B_def using r2 fabs by (rule scaled_bound)
  have aA: "\<bar>a - A\<bar> \<le> d"
    unfolding a_def d_def using Aabs by (intro toDouble_error_small) simp
  have bB: "\<bar>b - B\<bar> \<le> d"
    unfolding b_def d_def using Babs by (intro toDouble_error_small) simp
  have ge: "\<bar>g - (1 - e)\<bar> \<le> 2 * d" using gf fe by linarith
  have "A - real_of_int s1 * (1 - e) = real_of_int s1 * (g - (1 - e))"
    by (simp add: A_def algebra_simps)
  with scaled_bound [OF r1 ge] have Ac: "\<bar>A - real_of_int s1 * (1 - e)\<bar> \<le> 32768 * (2 * d)"
    by simp
  have "B - real_of_int s2 * e = real_of_int s2 * (f - e)" by (simp add: B_def algebra_simps)
  with scaled_bound [OF r2 fe] have Bc: "\<bar>B - real_of_int s2 * e\<bar> \<le> 32768 * d" by simp
  have cr: "- 32768 \<le> c \<and> c \<le> 32767"
    unfolding c_def using s1 s2 e by (intro convex_in_range) simp_all
  have ABc: "\<bar>A + B - c\<bar> \<le> 98304 * d" using Ac Bc unfolding c_def by linarith
  have abc: "\<bar>a + b - c\<bar> \<le> 98306 * d" using ABc aA bB by linarith
  have "\<bar>a + b\<bar> \<le> 131072" using abc cr d by linarith
  then have xab: "\<bar>x - (a + b)\<bar> \<le> d"
    unfolding x_def d_def by (rule toDouble_error_small)
  have xc: "\<bar>x - c\<bar> \<le> 98307 * d" using xab abc by linarith
  have "- 32768 \<le> x + 1 / 2" and "x + 1 / 2 < 32768" using xc cr d by linarith+
  then have "- 32768 \<le> \<lfloor>x + 1 / 2\<rfloor>" and "\<lfloor>x + 1 / 2\<rfloor> \<le> 32767"
    by (simp_all add: le_floor_iff floor_le_iff)
  then show ?thesis
    unfolding js_round_def x_def a_def b_def A_def B_def g_def f_def by simp
qed

text \<open>The loop body computes the described sample, and the sample fits 16 bits.\<close>

lemma resampleSample_interpolated:
  assumes even: "even (length buf)" and ratio: "0 \<le> ratio" and some: "2 \<le> length buf"
  shows "resampleSample buf (real (length buf) / 2) ratio i = Inr (interpolatedSample buf ratio i)"
    and "- 32768 \<le> interpolatedSample buf ratio i \<and> interpolatedSample buf ratio i \<le> 32767"
proof -
  define m where "m = length buf div 2"
  have len: "length buf = 2 * m" using even by (auto simp: m_def)
  have half: "real (length buf) / 2 = real m" by (simp add: len)
  have m1: "1 \<le> m" using some len by simp
  define pos where "pos = toDouble (real i * ratio)"
  define k where "k = \<lfloor>pos\<rfloor>"
  have pos0: "0 \<le> pos" unfolding pos_def using ratio by (intro toDouble_nonneg) simp
  then have k0: "0 \<le> k" by (simp add: k_def)
  define below where "below = nat k"
  have kb: "k = int below" using k0 by (simp add: below_def)
  have rk: "real_of_int k = real below" by (simp add: kb)
  define e where "e = pos - real below"
  have e: "0 \<le> e" "e < 1"
    unfolding e_def rk [symmetric] k_def by linarith+
  have cond: "(real_of_int k < real m - 1) = (below + 1 < m)"
    unfolding rk by (auto simp: less_diff_eq)
  define v where "v = js_round (toDouble (toDouble (real_of_int (sampleAt buf below) * toDouble (1 - toDouble e))
                                 + toDouble (real_of_int (sampleAt buf (below + 1)) * toDouble e)))"
  have interp: "interpolatedSample buf ratio i
      = (if below + 1 < m then v else sampleAt buf (m - 1))"
    unfolding interpolatedSample_def Let_def pos_def [symmetric] k_def [symmetric]
      below_def [symmetric] m_def [symmetric] e_def [symmetric] v_def js_round_def ..
  show "resampleSample buf (real (length buf) / 2) ratio i = Inr (interpolatedSample buf ratio i)"
  proof (cases "below + 1 < m")
    case True
    have r1: "readInt16LE_at buf (k * 2) = Inr (sampleAt buf below)"
      using True readInt16LE_sampleAt [of below buf]
      by (simp add: readInt16LE_at_def kb len nat_mult_distrib mult.commute)
    have "nat ((int below + 1) * 2) = 2 * (below + 1)" by (simp add: nat_add_distrib nat_mult_distrib)
    then have r2: "readInt16LE_at buf ((k + 1) * 2) = Inr (sampleAt buf (below + 1))"
      using True readInt16LE_sampleAt [of "below + 1" buf]
      by (simp add: readInt16LE_at_def kb len)
    have "resampleSample buf (real (length buf) / 2) ratio i = Inr v"
      unfolding resampleSample_def Let_def half pos_def [symmetric] k_def [symmetric]
      using True cond r1 r2 by (simp add: v_def e_def rk)
    with True interp show ?thesis by simp
  next
    case False
    have "nat (int (length buf) - 2) = 2 * (m - 1)" using m1 by (simp add: len)
    then have "readInt16LE_at buf (int (length buf) - 2) = Inr (sampleAt buf (m - 1))"
      using m1 readInt16LE_sampleAt [of "m - 1" buf]
      by (simp add: readInt16LE_at_def len)
    then have "resampleSample buf (real (length buf) / 2) ratio i = Inr (sampleAt buf (m - 1))"
      unfolding resampleSample_def Let_def half pos_def [symmetric] k_def [symmetric]
      using False cond by simp
    with False interp show ?thesis by simp
  qed
  show "- 32768 \<le> interpolatedSample buf ratio i \<and> interpolatedSample buf ratio i \<le> 32767"
  proof (cases "below + 1 < m")
    case True
    have a: "- 32768 \<le> sampleAt buf below" "sampleAt buf below \<le> 32767"
      using sample16_range [of "buf ! (2 * below)" "buf ! (2 * below + 1)"]
      by (simp_all add: sampleAt_def)
    have b: "- 32768 \<le> sampleAt buf (below + 1)" "sampleAt buf (below + 1) \<le> 32767"
      using sample16_range [of "buf ! (2 * (below + 1))" "buf ! (2 * (below + 1) + 1)"]
      by (simp_all add: sampleAt_def)
    from interpolation_in_range [OF a b e] True interp show ?thesis by (simp add: v_def)
  next
    case False
    with interp show ?thesis
      using sample16_range [of "buf ! (2 * (m - 1))" "buf ! (2 * (m - 1) + 1)"]
      by (simp add: sampleAt_def)
  qed
qed

lemma resampleAudio_loop_correct:
  assumes even: "even (length buf)" and ratio: "0 \<le> ratio"
    and some: "0 < N \<longrightarrow> 2 \<le> length buf"
    and i: "i \<le> N" and len: "length ob = 2 * N"
    and sofar: "\<forall>j<i. readInt16LE ob (2 * j) = Inr (interpolatedSample buf ratio j)"
  shows "\<exists>out. resampleAudio_loop buf (real (length buf) / 2) ratio N i ob = Inr out
           \<and> length out = 2 * N
           \<and> (\<forall>j<N. readInt16LE out (2 * j) = Inr (interpolatedSample buf ratio j))"
  using i len sofar
proof (induction "N - i" arbitrary: i ob)
  case 0
  then have "i = N" by simp
  with 0 show ?case by (simp add: resampleAudio_loop.simps [of buf _ ratio N N])
next
  case (Suc d)
  then have lt: "i < N" by simp
  let ?v = "interpolatedSample buf ratio i"
  from lt some have two: "2 \<le> length buf" by simp
  note smp = resampleSample_interpolated [OF even ratio two, of i]
  have fits: "i * 2 + 2 \<le> length ob" using lt Suc.prems(2) by simp
  from writeInt16LE_read [of ?v "i * 2" ob] smp(2) fits obtain written where
    w: "writeInt16LE ob ?v (i * 2) = Inr written" and wl: "length written = length ob"
    and wr: "readInt16LE written (i * 2) = Inr ?v"
    and wk: "\<forall>k. k + 2 \<le> i * 2 \<longrightarrow> readInt16LE written k = readInt16LE ob k" by blast
  have sofar': "\<forall>j<i + 1. readInt16LE written (2 * j) = Inr (interpolatedSample buf ratio j)"
  proof (intro allI impI)
    fix j assume "j < i + 1"
    then consider "j = i" | "j < i" by linarith
    then show "readInt16LE written (2 * j) = Inr (interpolatedSample buf ratio j)"
    proof cases
      case 1
      with wr show ?thesis by (simp add: mult.commute)
    next
      case 2
      then have "2 * j + 2 \<le> i * 2" by simp
      with wk have "readInt16LE written (2 * j) = readInt16LE ob (2 * j)" by blast
      with Suc.prems(3) 2 show ?thesis by simp
    qed
  qed
  have d: "d = N - (i + 1)" using Suc.hyps(2) by simp
  have "\<exists>out. resampleAudio_loop buf (real (length buf) / 2) ratio N (i + 1) written = Inr out
           \<and> length out = 2 * N
           \<and> (\<forall>j<N. readInt16LE out (2 * j) = Inr (interpolatedSample buf ratio j))"
    using lt wl Suc.prems(2) sofar' by (intro Suc.hyps(1) [OF d]) simp_all
  moreover have "resampleAudio_loop buf (real (length buf) / 2) ratio N i ob
      = resampleAudio_loop buf (real (length buf) / 2) ratio N (i + 1) written"
    using lt smp(1) w by (subst resampleAudio_loop.simps) simp
  ultimately show ?case by simp
qed

text \<open>A finite quotient of two finite numbers is the rounded exact quotient.\<close>

lemma number_divide_Finite:
  assumes "number_divide (Finite x) (Finite y) = Finite r"
  shows "y \<noteq> 0" and "r = toDouble (x / y)"
  using assms by (auto simp: toNumber_def Let_def split: if_splits)

text \<open>
  The resampler on an even-length input, with a ratio and a quotient of the sample count
  by the ratio that are finite, the ratio positive.
\<close>

lemma resampleAudio_finite:
  assumes even: "even (length inputBuffer)" and ne: "fromRate \<noteq> toRate"
    and r: "number_divide (Finite fromRate) (Finite toRate) = Finite ratio" and pos: "0 < ratio"
    and q: "number_divide (Finite (real (length inputBuffer div 2))) (Finite ratio)
              = Finite sampleQuotient"
  shows "\<exists>out. resampleAudio inputBuffer fromRate toRate = Inr out
             \<and> length out = 2 * nat \<lfloor>sampleQuotient\<rfloor>
             \<and> 0 \<le> \<lfloor>sampleQuotient\<rfloor>
             \<and> (\<forall>i<nat \<lfloor>sampleQuotient\<rfloor>.
                   sampleAt out i = interpolatedSample inputBuffer ratio i)"
proof -
  let ?n = "\<lfloor>sampleQuotient\<rfloor>"
  have half: "real (length inputBuffer) / 2 = real (length inputBuffer div 2)"
    using even by (auto elim: evenE)
  note qv = number_divide_Finite [OF q]
  have "0 \<le> real (length inputBuffer div 2) / ratio" using pos by simp
  then have q0: "0 \<le> sampleQuotient" unfolding qv(2) by (rule toDouble_nonneg)
  then have n0: "0 \<le> ?n" by simp
  have some: "0 < nat ?n \<longrightarrow> 2 \<le> length inputBuffer"
  proof
    assume "0 < nat ?n"
    then have nz: "sampleQuotient \<noteq> 0" by auto
    have "length inputBuffer div 2 \<noteq> 0"
    proof
      assume "length inputBuffer div 2 = 0"
      then have "sampleQuotient = 0" unfolding qv(2) by (simp add: toDouble_zero)
      with nz show False by simp
    qed
    then show "2 \<le> length inputBuffer" by simp
  qed
  have start: "\<forall>j<0. readInt16LE (replicate (nat ?n * 2) 0) (2 * j)
      = Inr (interpolatedSample inputBuffer ratio j)" by simp
  have ratio0: "0 \<le> ratio" using pos by simp
  from resampleAudio_loop_correct [OF even ratio0 some _ _ start]
  obtain out where
    loop: "resampleAudio_loop inputBuffer (real (length inputBuffer) / 2) ratio (nat ?n) 0
             (replicate (nat ?n * 2) 0) = Inr out"
    and len: "length out = 2 * nat ?n"
    and smp: "\<forall>j<nat ?n. readInt16LE out (2 * j) = Inr (interpolatedSample inputBuffer ratio j)"
    by auto
  have res: "resampleAudio inputBuffer fromRate toRate = Inr out"
    unfolding resampleAudio_def Let_def r half q
    using ne n0 loop [unfolded half] by simp
  have "\<forall>i<nat ?n. sampleAt out i = interpolatedSample inputBuffer ratio i"
  proof (intro allI impI)
    fix i assume i: "i < nat ?n"
    then have "2 * i + 2 \<le> length out" using len by simp
    from readInt16LE_sampleAt [OF this] smp i
    show "sampleAt out i = interpolatedSample inputBuffer ratio i" by simp
  qed
  with res len n0 show ?thesis by blast
qed

text \<open>The resampler when a quotient is not a finite positive number.\<close>

lemma resampleAudio_infinite_ratio:
  assumes "fromRate \<noteq> toRate"
    and "number_divide (Finite fromRate) (Finite toRate) = PositiveInfinity"
  shows "resampleAudio inputBuffer fromRate toRate = Inr []"
  unfolding resampleAudio_def Let_def assms(2) using assms(1) by simp

lemma resampleAudio_refused:
  assumes "fromRate \<noteq> toRate"
    and "number_divide (Finite fromRate) (Finite toRate) = Finite ratio"
    and "ratio = 0
         \<or> number_divide (Finite (real (length inputBuffer) / 2)) (Finite ratio) = PositiveInfinity"
  shows "resampleAudio inputBuffer fromRate toRate = Inl RangeError"
proof (cases "ratio = 0")
  case True
  show ?thesis
    unfolding resampleAudio_def Let_def assms(2) using assms(1) True by simp
next
  case False
  with assms(3)
  have "number_divide (Finite (real (length inputBuffer) / 2)) (Finite ratio) = PositiveInfinity"
    by simp
  then show ?thesis
    unfolding resampleAudio_def Let_def assms(2) using assms(1) by simp
qed

lemma quotient_examples:
  "number_divide (Finite (2 ^ 1023)) (Finite (1 / 2)) = PositiveInfinity"
  "number_divide (Finite (1 / 2 ^ 1074)) (Finite 4) = Finite 0"
  by (simp_all add: toNumber_def double_eval)

lemmas resample_eval =
  resampleAudio_def resampleAudio_loop.simps resampleSample_def readInt16LE_at_def
  readInt16LE_def writeInt16LE_def js_round_def toNumber_def double_eval

lemma resample_nine_to_seven:
  "resampleAudio [0, 0, 100, 0, 200, 0, 44, 1, 144, 1, 244, 1, 88, 2, 188, 2, 32, 3] 9 7
     = Inr [0, 0, 129, 0, 1, 1, 130, 1, 2, 2, 131, 2]"
proof -
  have r: "replicate 12 (0 :: byte) = [0, 0, 0, 0, 0, 0, 0, 0, 0, 0, 0, 0]"
    by (simp add: numeral_eq_Suc)
  show ?thesis
    unfolding resampleAudio_def by (simp add: resample_eval r)
qed

lemma resample_three_to_two:
  "resampleAudio [0, 0, 100, 0, 200, 0, 44, 1] 3 2 = Inr [0, 0, 150, 0]"
proof -
  have r: "replicate 4 (0 :: byte) = [0, 0, 0, 0]" by (simp add: numeral_eq_Suc)
  show ?thesis by (simp add: resample_eval r)
qed

lemma resample_near_half:
  "resampleAudio [0, 0, 0, 0, 0, 0, 0, 0, 0, 0, 232, 3, 0, 0, 0, 0, 0, 0] 44100 16000
     = Inr [0, 0, 0, 0, 231, 1]"
proof -
  have r: "replicate 6 (0 :: byte) = [0, 0, 0, 0, 0, 0]"
    by (simp add: numeral_eq_Suc)
  show ?thesis
    unfolding resampleAudio_def by (simp add: resample_eval r)
qed

text \<open>
  Claim C8, as stated: the output holds \<open>floor(inputSampleCount / (fromRate / toRate))\<close>
  samples, each the linear interpolation of the two bracketing input samples. The two
  quotients and the interpolation are computed in double precision. Nine samples from
  rate 9 to rate 7: the quotient \<open>9 / (9 / 7)\<close> is computed as 6.999999999999999 and the
  output holds 6 samples, not 7. Nine samples from 44100 to 16000: the position of output
  sample 2 is 5.5125, between the input samples 1000 and 0, whose interpolation 487.5
  rounds to 488; the position is computed with fractional part 0.5125000000000002 and the
  output sample is 487.
\<close>

theorem resampled_count_below_exact_floor:
  "resampleAudio [0, 0, 100, 0, 200, 0, 44, 1, 144, 1, 244, 1, 88, 2, 188, 2, 32, 3] 9 7
     = Inr [0, 0, 129, 0, 1, 1, 130, 1, 2, 2, 131, 2]
   \<and> length [0, 0, 129, 0, 1, 1, 130, 1, 2, 2, 131, 2 :: byte] div 2 = 6
   \<and> \<lfloor>real (length [0, 0, 100, 0, 200, 0, 44, 1, 144, 1, 244, 1, 88, 2, 188, 2, 32, 3 :: byte] div 2)
        / (9 / 7 :: real)\<rfloor> = 7
   \<and> resampleAudio [0, 0, 0, 0, 0, 0, 0, 0, 0, 0, 232, 3, 0, 0, 0, 0, 0, 0] 44100 16000
       = Inr [0, 0, 0, 0, 231, 1]
   \<and> sampleAt [0, 0, 0, 0, 231, 1] 2 = 487
   \<and> sampleAt [0, 0, 0, 0, 0, 0, 0, 0, 0, 0, 232, 3, 0, 0, 0, 0, 0, 0] 5 = 1000
   \<and> sampleAt [0, 0, 0, 0, 0, 0, 0, 0, 0, 0, 232, 3, 0, 0, 0, 0, 0, 0] 6 = 0
   \<and> (2 :: real) * (44100 / 16000) = 5 + 41 / 80
   \<and> js_round (1000 * (1 - 41 / 80) + 0 * (41 / 80)) = 488"
  unfolding resample_nine_to_seven resample_near_half
  by (simp add: sampleAt_def sample16_def js_round_def)

text \<open>
  Claim C8, amended: for an input that is a sequence of 16-bit samples and positive rates,
  equal rates return the input itself; otherwise, when the ratio \<open>fromRate / toRate\<close> and
  the quotient \<open>inputSamples / ratio\<close>, both computed in double precision, are finite and
  the ratio is not 0, the output holds the floor of that quotient many samples, and the
  sample at each output index is the rounded linear interpolation, computed in double
  precision, of the two input samples bracketing the source position, or the last input
  sample where the position has no sample after it (stated for an output of at most
  \<open>2^30 - 1\<close> bytes, a size that \<open>Buffer.alloc\<close> accepts on every platform). When the
  computed ratio is infinite the output is empty; when the computed ratio is 0 or the
  computed quotient is infinite, \<open>Buffer.alloc\<close> throws.
\<close>

theorem resampleAudio_linear_interpolation:
  assumes "even (length inputBuffer)" and "0 < fromRate" and "0 < toRate"
  shows "(fromRate = toRate \<longrightarrow> resampleAudio inputBuffer fromRate toRate = Inr inputBuffer)
     \<and> (fromRate \<noteq> toRate
          \<and> number_divide (Finite fromRate) (Finite toRate) = Finite ratio \<and> ratio \<noteq> 0
          \<and> number_divide (Finite (real (length inputBuffer div 2))) (Finite ratio)
                = Finite sampleQuotient
          \<and> 2 * \<lfloor>sampleQuotient\<rfloor> \<le> 1073741823 \<longrightarrow>
          (\<exists>out. resampleAudio inputBuffer fromRate toRate = Inr out
             \<and> length out = 2 * (length out div 2)
             \<and> int (length out div 2) = \<lfloor>sampleQuotient\<rfloor>
             \<and> (\<forall>i<length out div 2.
                   sampleAt out i = interpolatedSample inputBuffer ratio i)))
     \<and> (fromRate \<noteq> toRate
          \<and> number_divide (Finite fromRate) (Finite toRate) = PositiveInfinity \<longrightarrow>
          resampleAudio inputBuffer fromRate toRate = Inr [])
     \<and> (fromRate \<noteq> toRate
          \<and> number_divide (Finite fromRate) (Finite toRate) = Finite ratio
          \<and> (ratio = 0
               \<or> number_divide (Finite (real (length inputBuffer div 2))) (Finite ratio)
                    = PositiveInfinity) \<longrightarrow>
          resampleAudio inputBuffer fromRate toRate = Inl RangeError)"
proof (intro conjI impI)
  assume "fromRate = toRate"
  then show "resampleAudio inputBuffer fromRate toRate = Inr inputBuffer"
    by (simp add: resampleAudio_def)
next
  assume h: "fromRate \<noteq> toRate
          \<and> number_divide (Finite fromRate) (Finite toRate) = Finite ratio \<and> ratio \<noteq> 0
          \<and> number_divide (Finite (real (length inputBuffer div 2))) (Finite ratio)
                = Finite sampleQuotient
          \<and> 2 * \<lfloor>sampleQuotient\<rfloor> \<le> 1073741823"
  then have r: "number_divide (Finite fromRate) (Finite toRate) = Finite ratio" by simp
  have "0 \<le> fromRate / toRate" using assms(2,3) by simp
  then have "0 \<le> ratio" unfolding number_divide_Finite(2) [OF r] by (rule toDouble_nonneg)
  with h have pos: "0 < ratio" by simp
  from h resampleAudio_finite [OF assms(1) _ r pos, of sampleQuotient]
  obtain out where res: "resampleAudio inputBuffer fromRate toRate = Inr out"
    and len: "length out = 2 * nat \<lfloor>sampleQuotient\<rfloor>"
    and n0: "0 \<le> \<lfloor>sampleQuotient\<rfloor>"
    and smp: "\<forall>i<nat \<lfloor>sampleQuotient\<rfloor>. sampleAt out i = interpolatedSample inputBuffer ratio i"
    by blast
  have cnt: "length out div 2 = nat \<lfloor>sampleQuotient\<rfloor>" using len by simp
  have "length out = 2 * (length out div 2)" using len by simp
  moreover have "int (length out div 2) = \<lfloor>sampleQuotient\<rfloor>" using cnt n0 by simp
  moreover have "\<forall>i<length out div 2. sampleAt out i = interpolatedSample inputBuffer ratio i"
    using smp cnt by simp
  ultimately show "\<exists>out. resampleAudio inputBuffer fromRate toRate = Inr out
             \<and> length out = 2 * (length out div 2)
             \<and> int (length out div 2) = \<lfloor>sampleQuotient\<rfloor>
             \<and> (\<forall>i<length out div 2.
                   sampleAt out i = interpolatedSample inputBuffer ratio i)"
    using res by blast
next
  assume "fromRate \<noteq> toRate
          \<and> number_divide (Finite fromRate) (Finite toRate) = PositiveInfinity"
  then show "resampleAudio inputBuffer fromRate toRate = Inr []"
    using resampleAudio_infinite_ratio by blast
next
  have half: "real (length inputBuffer) / 2 = real (length inputBuffer div 2)"
    using assms(1) by (auto elim: evenE)
  assume "fromRate \<noteq> toRate
          \<and> number_divide (Finite fromRate) (Finite toRate) = Finite ratio
          \<and> (ratio = 0
               \<or> number_divide (Finite (real (length inputBuffer div 2))) (Finite ratio)
                    = PositiveInfinity)"
  then show "resampleAudio inputBuffer fromRate toRate = Inl RangeError"
    using resampleAudio_refused [of fromRate toRate ratio inputBuffer] unfolding half by blast
qed

theorem resampleAudio_linear_interpolation_witness:
  "even (length [0, 0, 100, 0, 200, 0, 44, 1, 144, 1, 244, 1, 88, 2, 188, 2, 32, 3 :: byte])
   \<and> (0 :: real) < 9 \<and> (0 :: real) < 7 \<and> (9 :: real) \<noteq> 7
   \<and> number_divide (Finite 9) (Finite 7) = Finite (5790342378047781 / 4503599627370496)
   \<and> (5790342378047781 / 4503599627370496 :: real) \<noteq> 0
   \<and> number_divide
         (Finite (real (length [0, 0, 100, 0, 200, 0, 44, 1, 144, 1, 244, 1, 88, 2, 188, 2, 32, 3 :: byte]
                        div 2)))
         (Finite (5790342378047781 / 4503599627370496))
       = Finite (7881299347898367 / 1125899906842624)
   \<and> \<lfloor>7881299347898367 / 1125899906842624 :: real\<rfloor> = 6
   \<and> 2 * \<lfloor>7881299347898367 / 1125899906842624 :: real\<rfloor> \<le> 1073741823
   \<and> (\<exists>out. resampleAudio [0, 0, 100, 0, 200, 0, 44, 1, 144, 1, 244, 1, 88, 2, 188, 2, 32, 3] 9 7
                = Inr out
          \<and> int (length out div 2) = \<lfloor>7881299347898367 / 1125899906842624 :: real\<rfloor>
          \<and> sampleAt out 1
              = interpolatedSample [0, 0, 100, 0, 200, 0, 44, 1, 144, 1, 244, 1, 88, 2, 188, 2, 32, 3]
                  (5790342378047781 / 4503599627370496) 1)
   \<and> interpolatedSample [0, 0, 100, 0, 200, 0, 44, 1, 144, 1, 244, 1, 88, 2, 188, 2, 32, 3]
         (5790342378047781 / 4503599627370496) 1 = 129
   \<and> resampleAudio [0, 0, 100, 0, 200, 0, 44, 1] 2 2 = Inr [0, 0, 100, 0, 200, 0, 44, 1]
   \<and> (0 :: real) < 2 ^ 1023 \<and> (0 :: real) < 1 / 2 \<and> (2 ^ 1023 :: real) \<noteq> 1 / 2
   \<and> number_divide (Finite (2 ^ 1023)) (Finite (1 / 2)) = PositiveInfinity
   \<and> resampleAudio [0, 0, 100, 0, 200, 0, 44, 1] (2 ^ 1023) (1 / 2) = Inr []
   \<and> (0 :: real) < 1 / 2 ^ 1074 \<and> (0 :: real) < 4 \<and> (1 / 2 ^ 1074 :: real) \<noteq> 4
   \<and> number_divide (Finite (1 / 2 ^ 1074)) (Finite 4) = Finite 0
   \<and> resampleAudio [0, 0, 100, 0, 200, 0, 44, 1] (1 / 2 ^ 1074) 4 = Inl RangeError"
proof -
  let ?buf = "[0, 0, 100, 0, 200, 0, 44, 1, 144, 1, 244, 1, 88, 2, 188, 2, 32, 3 :: byte]"
  let ?ratio = "5790342378047781 / 4503599627370496 :: real"
  let ?q = "7881299347898367 / 1125899906842624 :: real"
  have e: "even (length ?buf)" by simp
  have p9: "(0 :: real) < 9" and p7: "(0 :: real) < 7" and ne: "(9 :: real) \<noteq> 7" by simp_all
  have r: "number_divide (Finite 9) (Finite 7) = Finite ?ratio"
    by (simp add: toNumber_def double_eval)
  have r0: "?ratio \<noteq> 0" by simp
  have q: "number_divide (Finite (real (length ?buf div 2))) (Finite ?ratio) = Finite ?q"
    by (simp add: toNumber_def double_eval)
  have fl: "\<lfloor>?q\<rfloor> = 6" by simp
  have sz: "2 * \<lfloor>?q\<rfloor> \<le> 1073741823" by simp
  from resampleAudio_linear_interpolation [OF e p9 p7, of ?ratio ?q] ne r r0 q sz
  obtain out where res: "resampleAudio ?buf 9 7 = Inr out"
    and cnt: "int (length out div 2) = \<lfloor>?q\<rfloor>"
    and smp: "\<forall>i<length out div 2. sampleAt out i = interpolatedSample ?buf ?ratio i"
    by blast
  from cnt fl have "1 < length out div 2" by simp
  with smp have one: "sampleAt out 1 = interpolatedSample ?buf ?ratio 1" by blast
  from res cnt one have a: "\<exists>out. resampleAudio ?buf 9 7 = Inr out
          \<and> int (length out div 2) = \<lfloor>?q\<rfloor>
          \<and> sampleAt out 1 = interpolatedSample ?buf ?ratio 1" by blast
  have v: "interpolatedSample ?buf ?ratio 1 = 129"
    by (simp add: interpolatedSample_def sampleAt_def sample16_def double_eval)
  have e2: "even (length [0, 0, 100, 0, 200, 0, 44, 1 :: byte])" by simp
  have p2: "(0 :: real) < 2" by simp
  from resampleAudio_linear_interpolation [OF e2 p2 p2]
  have b: "resampleAudio [0, 0, 100, 0, 200, 0, 44, 1] 2 2 = Inr [0, 0, 100, 0, 200, 0, 44, 1]"
    by blast
  have big: "(0 :: real) < 2 ^ 1023" and half: "(0 :: real) < 1 / 2"
    and ne_big: "(2 ^ 1023 :: real) \<noteq> 1 / 2" by simp_all
  from resampleAudio_linear_interpolation [OF e2 big half] ne_big quotient_examples(1)
  have c: "resampleAudio [0, 0, 100, 0, 200, 0, 44, 1] (2 ^ 1023) (1 / 2) = Inr []" by blast
  have tiny: "(0 :: real) < 1 / 2 ^ 1074" and four: "(0 :: real) < 4"
    and ne_tiny: "(1 / 2 ^ 1074 :: real) \<noteq> 4" by simp_all
  from resampleAudio_linear_interpolation [OF e2 tiny four, of 0] ne_tiny quotient_examples(2)
  have d: "resampleAudio [0, 0, 100, 0, 200, 0, 44, 1] (1 / 2 ^ 1074) 4 = Inl RangeError" by blast
  show ?thesis
    by (intro conjI)
       (fact e p9 p7 ne r r0 q fl sz a v b big half ne_big quotient_examples c tiny four ne_tiny d)+
qed

section \<open>Claim C1: a turn finalized while another is being processed\<close>

lemma serviceRun_simps:
  "serviceRun [] svc = svc"
  "serviceRun (x # xs) svc = serviceRun xs (serviceStep x svc)"
  "serviceRun (xs @ ys) svc = serviceRun ys (serviceRun xs svc)"
  by (simp_all add: serviceRun_def)

lemma serviceStep_transcribed:
  "\<exists>ys. transcribed (serviceStep x svc) = transcribed svc @ ys"
  by (cases x)
     (auto simp: onSpeakingStarted_def serviceProcessSpeechTurn_def
        serviceProcessSpeechTurn_finally_def Let_def split: option.splits)

lemma serviceRun_transcribed:
  "\<exists>ys. transcribed (serviceRun xs svc) = transcribed svc @ ys"
proof (induction xs arbitrary: svc)
  case Nil
  then show ?case by (simp add: serviceRun_simps)
next
  case (Cons x xs)
  from serviceStep_transcribed [of x svc] obtain ys where
    "transcribed (serviceStep x svc) = transcribed svc @ ys" by blast
  moreover from Cons.IH [of "serviceStep x svc"] obtain zs where
    "transcribed (serviceRun xs (serviceStep x svc)) = transcribed (serviceStep x svc) @ zs" by blast
  ultimately show ?case by (simp add: serviceRun_simps)
qed

text \<open>
  Claim C1, as stated: a turn finalized while the participant's \<open>isProcessing\<close> flag is
  set is queued behind the turn in flight and transcribed later, so that no finalized turn
  is lost. The service has no queue: \<open>processSpeechTurn\<close> tests the flag, logs that it is
  skipping and returns. A second turn that arrives before the first has settled is never
  handed to transcription, and the service is left exactly as if it had never arrived.
\<close>

theorem second_turn_is_dropped:
  "transcribed (serviceRun [SpeakingStartedFor ''alice'' 0, TurnFinalized ''alice'' [1, 2],
                            TurnFinalized ''alice'' [3, 4], ProcessingSettled ''alice'']
                  newService) = [(''alice'', [1, 2])]
   \<and> serviceRun [SpeakingStartedFor ''alice'' 0, TurnFinalized ''alice'' [1, 2],
                 TurnFinalized ''alice'' [3, 4], ProcessingSettled ''alice''] newService
     = serviceRun [SpeakingStartedFor ''alice'' 0, TurnFinalized ''alice'' [1, 2],
                   ProcessingSettled ''alice''] newService"
  by (simp add: serviceRun_simps newService_def onSpeakingStarted_def
      serviceProcessSpeechTurn_def serviceProcessSpeechTurn_finally_def)

text \<open>
  Claim C1, amended: when a turn is finalized while \<open>isProcessing\<close> is set for the
  participant, \<open>processSpeechTurn\<close> leaves the service unchanged (the turn is skipped:
  not queued, not transcribed); when the flag is clear, the turn is handed to
  transcription at once and the flag is set; the \<open>finally\<close> block clears the flag and
  hands nothing over; and the turns handed to transcription are only ever added at the
  end, so those that are processed keep their order of arrival.
\<close>

theorem turn_transcribed_or_skipped:
  "(userStates svc p = Some u \<and> isProcessing u \<longrightarrow> serviceProcessSpeechTurn p b svc = svc)
   \<and> (userStates svc p = Some u \<and> \<not> isProcessing u \<longrightarrow>
        transcribed (serviceProcessSpeechTurn p b svc) = transcribed svc @ [(p, b)]
        \<and> map_option isProcessing (userStates (serviceProcessSpeechTurn p b svc) p) = Some True)
   \<and> (userStates svc p = Some u \<longrightarrow>
        map_option isProcessing (userStates (serviceProcessSpeechTurn_finally p svc) p) = Some False
        \<and> transcribed (serviceProcessSpeechTurn_finally p svc) = transcribed svc)
   \<and> (\<exists>ys. transcribed (serviceRun xs svc) = transcribed svc @ ys)"
  using serviceRun_transcribed [of xs svc]
  by (auto simp: serviceProcessSpeechTurn_def serviceProcessSpeechTurn_finally_def)

lemma started_user:
  "userStates (onSpeakingStarted ''alice'' 0 newService) ''alice''
     = Some \<lparr> isProcessing = False, userLastActivity = 0, userBuffers = [] \<rparr>"
  "userStates (serviceProcessSpeechTurn ''alice'' [1, 2] (onSpeakingStarted ''alice'' 0 newService)) ''alice''
     = Some \<lparr> isProcessing = True, userLastActivity = 0, userBuffers = [] \<rparr>"
  by (simp_all add: newService_def onSpeakingStarted_def serviceProcessSpeechTurn_def)

theorem turn_transcribed_or_skipped_witness:
  "userStates (serviceProcessSpeechTurn ''alice'' [1, 2] (onSpeakingStarted ''alice'' 0 newService)) ''alice''
     = Some \<lparr> isProcessing = True, userLastActivity = 0, userBuffers = [] \<rparr>
   \<and> isProcessing \<lparr> isProcessing = True, userLastActivity = 0, userBuffers = [] \<rparr>
   \<and> serviceProcessSpeechTurn ''alice'' [3, 4]
        (serviceProcessSpeechTurn ''alice'' [1, 2] (onSpeakingStarted ''alice'' 0 newService))
       = serviceProcessSpeechTurn ''alice'' [1, 2] (onSpeakingStarted ''alice'' 0 newService)
   \<and> userStates (onSpeakingStarted ''alice'' 0 newService) ''alice''
     = Some \<lparr> isProcessing = False, userLastActivity = 0, userBuffers = [] \<rparr>
   \<and> \<not> isProcessing \<lparr> isProcessing = False, userLastActivity = 0, userBuffers = [] \<rparr>
   \<and> transcribed (serviceProcessSpeechTurn ''alice'' [1, 2] (onSpeakingStarted ''alice'' 0 newService))
       = transcribed (onSpeakingStarted ''alice'' 0 newService) @ [(''alice'', [1, 2])]"
proof -
  let ?s0 = "onSpeakingStarted ''alice'' 0 newService"
  let ?s1 = "serviceProcessSpeechTurn ''alice'' [1, 2] ?s0"
  let ?busy = "\<lparr> isProcessing = True, userLastActivity = 0, userBuffers = [] \<rparr>"
  let ?free = "\<lparr> isProcessing = False, userLastActivity = 0, userBuffers = [] \<rparr>"
  have b: "isProcessing ?busy" and f: "\<not> isProcessing ?free" by simp_all
  from turn_transcribed_or_skipped [of ?s1 "''alice''" ?busy "[3, 4]" "[]"] started_user(2) b
  have skipped: "serviceProcessSpeechTurn ''alice'' [3, 4] ?s1 = ?s1" by blast
  from turn_transcribed_or_skipped [of ?s0 "''alice''" ?free "[1, 2]" "[]"] started_user(1) f
  have handed: "transcribed ?s1 = transcribed ?s0 @ [(''alice'', [1, 2])]" by blast
  from started_user b f skipped handed show ?thesis by blast
qed

end
